theory Spec2Isabelle
  imports Main
begin

section \<open>Python values and callables\<close>

text \<open>
  The module \<^verbatim>\<open>eventer.py\<close> handles function objects. A function object has an identity
  (what \<^verbatim>\<open>id\<close> returns) and a \<^verbatim>\<open>__name__\<close>. Three kinds occur:
  \<^item> \<open>Fn i n\<close>: a function of the host application, at identity \<open>i\<close>, named \<open>n\<close>;
  \<^item> \<open>CallsSubs i f\<close>: the closure \<^verbatim>\<open>calls_subs\<close> that \<^verbatim>\<open>event(f)\<close> creates at identity \<open>i\<close>;
  \<^item> \<open>Voided i f\<close>: the closure \<^verbatim>\<open>voided\<close> that \<^verbatim>\<open>voidargs(f)\<close> creates at identity \<open>i\<close>.
  Both closures are built under \<^verbatim>\<open>functools.wraps(f)\<close>, which copies the name of \<open>f\<close>.
\<close>

datatype callable =
    Fn nat string
  | CallsSubs nat callable
  | Voided nat callable

fun obj_id :: "callable \<Rightarrow> nat" where
  "obj_id (Fn i n) = i"
| "obj_id (CallsSubs i f) = i"
| "obj_id (Voided i f) = i"

fun name :: "callable \<Rightarrow> string" where
  "name (Fn i n) = n"
| "name (CallsSubs i f) = name f"
| "name (Voided i f) = name f"

datatype val =
    VNone
  | VBool bool
  | VInt int
  | VStr string
  | VTuple "val list"
  | VFun callable

text \<open>
  An argument list is what \<^verbatim>\<open>*args, **kwargs\<close> receives: the positional values and the
  keyword values.
\<close>

type_synonym args = "val list \<times> (string \<times> val) list"

datatype exn =
    EventNotRegistered string
  | KeyError nat
  | Raised string

text \<open>The truth value Python's \<^verbatim>\<open>not\<close> tests.\<close>

fun truthy :: "val \<Rightarrow> bool" where
  "truthy VNone = False"
| "truthy (VBool b) = b"
| "truthy (VInt n) = (n \<noteq> 0)"
| "truthy (VStr s) = (s \<noteq> [])"
| "truthy (VTuple vs) = (vs \<noteq> [])"
| "truthy (VFun c) = True"

section \<open>Calling a callable\<close>

text \<open>
  The functions of the host application are opaque to the module. Their behaviour is the
  parameter \<open>beh\<close>: called with an argument list in a host state \<open>'w\<close>, a callable raises or
  returns a value, and leaves a new host state. A \<^verbatim>\<open>voided\<close> closure is the module's own
  code (\<^verbatim>\<open>f()\<close>, then falling off the end of the function):
  it calls \<open>f\<close> with no argument and returns \<^verbatim>\<open>None\<close>.
  Host callables act on the host state only: a subscriber that registers further
  subscribers while an event is being dispatched is outside this model.
\<close>

type_synonym 'w beh = "callable \<Rightarrow> args \<Rightarrow> 'w \<Rightarrow> (exn + val) \<times> 'w"

fun call :: "'w beh \<Rightarrow> callable \<Rightarrow> args \<Rightarrow> 'w \<Rightarrow> (exn + val) \<times> 'w" where
  "call beh (Voided i f) as w =
     (case call beh f ([], []) w of
        (Inl e, w') \<Rightarrow> (Inl e, w')
      | (Inr r, w') \<Rightarrow> (Inr VNone, w'))"
| "call beh (Fn i n) as w = beh (Fn i n) as w"
| "call beh (CallsSubs i f) as w = beh (CallsSubs i f) as w"

definition voidargs :: "nat \<Rightarrow> callable \<Rightarrow> callable" where
  "voidargs a f = Voided a f"

section \<open>The registry\<close>

text \<open>
  \<^verbatim>\<open>_events\<close> maps the identity of an event to the triple
  \<^verbatim>\<open>(before, after, conditions)\<close>. The state of the program is that dictionary, the state
  of the host application, and a log of the calls the dispatcher has made (callee,
  arguments passed, outcome), kept to state what ran and in which order.
\<close>

record entry =
  callee :: callable
  passed :: args
  outcome :: "exn + val"

record 'w state =
  events :: "nat \<rightharpoonup> (callable list \<times> callable list \<times> callable list)"
  host :: 'w
  calls :: "entry list"

section \<open>Promotion and dispatch\<close>

text \<open>\<^verbatim>\<open>sub(*args, **kwargs)\<close> as the dispatcher runs it.\<close>

definition invoke :: "'w beh \<Rightarrow> callable \<Rightarrow> args \<Rightarrow> 'w state \<Rightarrow> (exn + val) \<times> 'w state" where
  "invoke beh sub as st =
     (case call beh sub as (host st) of
        (r, w') \<Rightarrow>
          (r, st\<lparr>host := w',
                 calls := calls st @ [\<lparr>callee = sub, passed = as, outcome = r\<rparr>]\<rparr>))"

text \<open>
  \<^verbatim>\<open>for sub in conditions: if not sub(*args, **kwargs): return\<close>.
  The result \<open>Inr False\<close> is the early return, \<open>Inr True\<close> the end of the loop.
\<close>

fun conditions_loop ::
  "'w beh \<Rightarrow> callable list \<Rightarrow> args \<Rightarrow> 'w state \<Rightarrow> (exn + bool) \<times> 'w state" where
  "conditions_loop beh [] as st = (Inr True, st)"
| "conditions_loop beh (sub # subs) as st =
     (case invoke beh sub as st of
        (Inl e, st') \<Rightarrow> (Inl e, st')
      | (Inr v, st') \<Rightarrow>
          if \<not> truthy v then (Inr False, st') else conditions_loop beh subs as st')"

text \<open>\<^verbatim>\<open>for sub in before: sub(*args, **kwargs)\<close>, and the same loop over \<^verbatim>\<open>after\<close>.\<close>

fun subs_loop ::
  "'w beh \<Rightarrow> callable list \<Rightarrow> args \<Rightarrow> 'w state \<Rightarrow> (exn + unit) \<times> 'w state" where
  "subs_loop beh [] as st = (Inr (), st)"
| "subs_loop beh (sub # subs) as st =
     (case invoke beh sub as st of
        (Inl e, st') \<Rightarrow> (Inl e, st')
      | (Inr v, st') \<Rightarrow> subs_loop beh subs as st')"

text \<open>
  The body of the closure \<^verbatim>\<open>calls_subs\<close> of \<^verbatim>\<open>event(f)\<close>, whose own identity is \<open>self\<close>.
  The lookup \<^verbatim>\<open>_events[id(calls_subs)]\<close> raises \<^verbatim>\<open>KeyError\<close> on a missing key.
\<close>

definition calls_subs ::
  "'w beh \<Rightarrow> nat \<Rightarrow> callable \<Rightarrow> args \<Rightarrow> 'w state \<Rightarrow> (exn + val) \<times> 'w state" where
  "calls_subs beh self f as st =
     (case events st self of
        None \<Rightarrow> (Inl (KeyError self), st)
      | Some (before, after, conditions) \<Rightarrow>
          (case conditions_loop beh conditions as st of
             (Inl e, st1) \<Rightarrow> (Inl e, st1)
           | (Inr False, st1) \<Rightarrow> (Inr VNone, st1)
           | (Inr True, st1) \<Rightarrow>
               (case subs_loop beh before as st1 of
                  (Inl e, st2) \<Rightarrow> (Inl e, st2)
                | (Inr u, st2) \<Rightarrow>
                    (case invoke beh f as st2 of
                       (Inl e, st3) \<Rightarrow> (Inl e, st3)
                     | (Inr r, st3) \<Rightarrow>
                         (case subs_loop beh after as st3 of
                            (Inl e, st4) \<Rightarrow> (Inl e, st4)
                          | (Inr u', st4) \<Rightarrow> (Inr r, st4))))))"

text \<open>
  \<^verbatim>\<open>event(f)\<close>: the runtime creates the closure at an identity \<open>a\<close>; the module
  stores three empty lists under \<open>a\<close> and returns the closure.
\<close>

definition event :: "nat \<Rightarrow> callable \<Rightarrow> 'w state \<Rightarrow> callable \<times> 'w state" where
  "event a f st = (CallsSubs a f, st\<lparr>events := (events st)(a \<mapsto> ([], [], []))\<rparr>)"

text \<open>
  \<^verbatim>\<open>event\<close> returns the closure \<^verbatim>\<open>calls_subs\<close> and nothing else creates one: the
  callables that were promoted are these closures. A function of the host application
  and a closure of \<^verbatim>\<open>voidargs\<close> were never promoted.
\<close>

fun promoted :: "callable \<Rightarrow> bool" where
  "promoted (CallsSubs i f) = True"
| "promoted (Fn i n) = False"
| "promoted (Voided i f) = False"

section \<open>Registration\<close>

definition not_registered_msg :: "callable \<Rightarrow> string" where
  "not_registered_msg ev =
     ''Function `'' @ name ev @
     ''` is not registered as an event. This can be resolved by adding the `@event` decorator to the function.''"

text \<open>The inner function \<^verbatim>\<open>decorator\<close> of \<^verbatim>\<open>run_before(ev, fn)\<close>.\<close>

definition run_before_decorator ::
  "callable \<Rightarrow> callable \<Rightarrow> 'w state \<Rightarrow> (exn + callable) \<times> 'w state" where
  "run_before_decorator ev f st =
     (case events st (obj_id ev) of
        None \<Rightarrow> (Inl (EventNotRegistered (not_registered_msg ev)), st)
      | Some (before, after, conditions) \<Rightarrow>
          (Inr f, st\<lparr>events := (events st)(obj_id ev \<mapsto> (before @ [f], after, conditions))\<rparr>))"

text \<open>The inner function \<^verbatim>\<open>decorator\<close> of \<^verbatim>\<open>run_after(ev, fn)\<close>.\<close>

definition run_after_decorator ::
  "callable \<Rightarrow> callable \<Rightarrow> 'w state \<Rightarrow> (exn + callable) \<times> 'w state" where
  "run_after_decorator ev f st =
     (case events st (obj_id ev) of
        None \<Rightarrow> (Inl (EventNotRegistered (not_registered_msg ev)), st)
      | Some (before, after, conditions) \<Rightarrow>
          (Inr f, st\<lparr>events := (events st)(obj_id ev \<mapsto> (before, after @ [f], conditions))\<rparr>))"

text \<open>The inner function \<^verbatim>\<open>decorator\<close> of \<^verbatim>\<open>condition_for(ev, fn)\<close>.\<close>

definition condition_for_decorator ::
  "callable \<Rightarrow> callable \<Rightarrow> 'w state \<Rightarrow> (exn + callable) \<times> 'w state" where
  "condition_for_decorator ev f st =
     (case events st (obj_id ev) of
        None \<Rightarrow> (Inl (EventNotRegistered (not_registered_msg ev)), st)
      | Some (before, after, conditions) \<Rightarrow>
          (Inr f, st\<lparr>events := (events st)(obj_id ev \<mapsto> (before, after, conditions @ [f]))\<rparr>))"

text \<open>
  The three registration functions. The parameter \<open>fn\<close> defaults to \<^verbatim>\<open>None\<close>; when it is
  given, \<^verbatim>\<open>decorator(fn)\<close> runs first and its exception, if any, leaves the function. The
  value returned is the closure \<^verbatim>\<open>decorator\<close>, here the function of the subscriber and the
  state.
\<close>

type_synonym 'w decorator = "callable \<Rightarrow> 'w state \<Rightarrow> (exn + callable) \<times> 'w state"

definition run_before ::
  "callable \<Rightarrow> callable option \<Rightarrow> 'w state \<Rightarrow> (exn + 'w decorator) \<times> 'w state" where
  "run_before ev fn st =
     (case fn of
        None \<Rightarrow> (Inr (run_before_decorator ev), st)
      | Some g \<Rightarrow>
          (case run_before_decorator ev g st of
             (Inl e, st') \<Rightarrow> (Inl e, st')
           | (Inr r, st') \<Rightarrow> (Inr (run_before_decorator ev), st')))"

definition run_after ::
  "callable \<Rightarrow> callable option \<Rightarrow> 'w state \<Rightarrow> (exn + 'w decorator) \<times> 'w state" where
  "run_after ev fn st =
     (case fn of
        None \<Rightarrow> (Inr (run_after_decorator ev), st)
      | Some g \<Rightarrow>
          (case run_after_decorator ev g st of
             (Inl e, st') \<Rightarrow> (Inl e, st')
           | (Inr r, st') \<Rightarrow> (Inr (run_after_decorator ev), st')))"

definition condition_for ::
  "callable \<Rightarrow> callable option \<Rightarrow> 'w state \<Rightarrow> (exn + 'w decorator) \<times> 'w state" where
  "condition_for ev fn st =
     (case fn of
        None \<Rightarrow> (Inr (condition_for_decorator ev), st)
      | Some g \<Rightarrow>
          (case condition_for_decorator ev g st of
             (Inl e, st') \<Rightarrow> (Inl e, st')
           | (Inr r, st') \<Rightarrow> (Inr (condition_for_decorator ev), st')))"

section \<open>What a callable does, what the log shows\<close>

text \<open>
  Shorthand for the hypotheses of the theorems about dispatch. With the argument list \<open>as\<close>
  and in whatever host state it is called, a callable returns a true value, returns a
  false value, returns, or raises \<open>e\<close>. An entry of the log returned, returned a true
  value, or returned a false value.
\<close>

abbreviation returns_true :: "'w beh \<Rightarrow> callable \<Rightarrow> args \<Rightarrow> bool" where
  "returns_true beh c as \<equiv> \<forall>w. \<exists>v w'. call beh c as w = (Inr v, w') \<and> truthy v"

abbreviation returns_false :: "'w beh \<Rightarrow> callable \<Rightarrow> args \<Rightarrow> bool" where
  "returns_false beh c as \<equiv> \<forall>w. \<exists>v w'. call beh c as w = (Inr v, w') \<and> \<not> truthy v"

abbreviation returns :: "'w beh \<Rightarrow> callable \<Rightarrow> args \<Rightarrow> bool" where
  "returns beh c as \<equiv> \<forall>w. \<exists>v w'. call beh c as w = (Inr v, w')"

abbreviation raises :: "'w beh \<Rightarrow> callable \<Rightarrow> args \<Rightarrow> exn \<Rightarrow> bool" where
  "raises beh c as e \<equiv> \<forall>w. \<exists>w'. call beh c as w = (Inl e, w')"

abbreviation passed_all :: "args \<Rightarrow> entry list \<Rightarrow> bool" where
  "passed_all as es \<equiv> \<forall>x \<in> set es. passed x = as"

abbreviation returned :: "entry \<Rightarrow> bool" where
  "returned x \<equiv> \<exists>v. outcome x = Inr v"

abbreviation said_yes :: "entry \<Rightarrow> bool" where
  "said_yes x \<equiv> \<exists>v. outcome x = Inr v \<and> truthy v"

abbreviation said_no :: "entry \<Rightarrow> bool" where
  "said_no x \<equiv> \<exists>v. outcome x = Inr v \<and> \<not> truthy v"

section \<open>Example data\<close>

text \<open>
  A registry as the test \<^verbatim>\<open>test_add_event\<close> builds it: the event \<^verbatim>\<open>foo\<close> at identity 1 with
  one subscriber in each list, the event \<^verbatim>\<open>baz\<close> at identity 3 with empty lists, and the
  plain function \<^verbatim>\<open>bar\<close>, which was never promoted.
\<close>

definition demo_foo :: callable where
  "demo_foo = CallsSubs 1 (Fn 100 ''foo'')"

definition demo_baz :: callable where
  "demo_baz = CallsSubs 3 (Fn 101 ''baz'')"

definition demo_bar :: callable where
  "demo_bar = Fn 2 ''bar''"

definition st_demo :: "nat state" where
  "st_demo = \<lparr>events = [1 \<mapsto> ([Fn 5 ''sub1''], [Fn 6 ''sub2''], [Fn 7 ''cond1'']),
                         3 \<mapsto> ([], [], [])],
              host = 0, calls = []\<rparr>"

text \<open>
  A registry with a stale key. The function \<^verbatim>\<open>foo\<close> was promoted, the closure was created
  at identity 1, and \<^verbatim>\<open>sub1\<close> was registered to run before it. The module never removes
  an entry, so the record stays under 1 when the program drops the event and the runtime
  frees the closure. \<^verbatim>\<open>id\<close> is unique among the objects alive together only: CPython
  may give identity 1 to the next function object it creates.
\<close>

definition st_empty :: "nat state" where
  "st_empty = \<lparr>events = Map.empty, host = 0, calls = []\<rparr>"

definition st_stale :: "nat state" where
  "st_stale =
     snd (run_before_decorator (CallsSubs 1 (Fn 100 ''foo'')) (Fn 5 ''sub1'')
            (snd (event 1 (Fn 100 ''foo'') st_empty)))"

text \<open>
  Host functions for the examples, after the tests: \<^verbatim>\<open>always_false\<close>, a condition that
  returns \<^verbatim>\<open>True\<close>, \<^verbatim>\<open>increment\<close> (adds one to the host state, a counter, and returns
  \<^verbatim>\<open>None\<close>), \<^verbatim>\<open>return5\<close>, and a function that raises.
\<close>

abbreviation always_false :: callable where "always_false \<equiv> Fn 10 ''always_false''"
abbreviation always_true :: callable where "always_true \<equiv> Fn 11 ''always_true''"
abbreviation increment :: callable where "increment \<equiv> Fn 12 ''increment''"
abbreviation return5 :: callable where "return5 \<equiv> Fn 13 ''return5''"
abbreviation boom :: callable where "boom \<equiv> Fn 14 ''boom''"

fun demo_beh :: "nat beh" where
  "demo_beh (Fn i n) as w =
     (if i = 10 then (Inr (VBool False), w)
      else if i = 11 then (Inr (VBool True), w)
      else if i = 12 then (Inr VNone, Suc w)
      else if i = 13 then (Inr (VInt 5), w)
      else if i = 14 then (Inl (Raised ''boom''), w)
      else (Inr VNone, w))"
| "demo_beh (CallsSubs i f) as w = (Inr VNone, w)"
| "demo_beh (Voided i f) as w = (Inr VNone, w)"

definition st_with :: "callable list \<times> callable list \<times> callable list \<Rightarrow> nat state" where
  "st_with r = \<lparr>events = [20 \<mapsto> r], host = 0, calls = []\<rparr>"

definition demo_args :: args where
  "demo_args = ([VInt 1], [(''y'', VInt 15)])"


section \<open>Registration: errors, results and frame\<close>

lemma not_promoted: "obj_id ev \<notin> dom (events st) \<Longrightarrow> events st (obj_id ev) = None"
  by (cases "events st (obj_id ev)") auto

lemma st_stale_events: "events st_stale = [1 \<mapsto> ([Fn 5 ''sub1''], [], [])]"
  by (simp add: st_stale_def st_empty_def event_def run_before_decorator_def)

text \<open>
  C3, as amended. The test the decorators make is \<^verbatim>\<open>id(ev) not in _events\<close>. A
  callable whose identity is not a key of the registry is rejected: applied to it, each
  of the three decorators, and each of the three direct calls, raises
  \<^verbatim>\<open>EventNotRegistered\<close> with a message that contains the name of the callable, and
  leaves the whole state, so the registry, as it was. The callables of this theory are
  function objects, which have a \<^verbatim>\<open>__name__\<close>; what the message does with an object
  that has none is not stated here.
\<close>

theorem unregistered_target_rejected:
  assumes "obj_id ev \<notin> dom (events st)"
  shows "run_before_decorator ev f st = (Inl (EventNotRegistered (not_registered_msg ev)), st)
       \<and> run_after_decorator ev f st = (Inl (EventNotRegistered (not_registered_msg ev)), st)
       \<and> condition_for_decorator ev f st = (Inl (EventNotRegistered (not_registered_msg ev)), st)
       \<and> run_before ev (Some f) st = (Inl (EventNotRegistered (not_registered_msg ev)), st)
       \<and> run_after ev (Some f) st = (Inl (EventNotRegistered (not_registered_msg ev)), st)
       \<and> condition_for ev (Some f) st = (Inl (EventNotRegistered (not_registered_msg ev)), st)
       \<and> (\<exists>pre post. not_registered_msg ev = pre @ name ev @ post)"
proof -
  from assms have none: "events st (obj_id ev) = None"
    by (rule not_promoted)
  have msg: "\<exists>pre post. not_registered_msg ev = pre @ name ev @ post"
    unfolding not_registered_msg_def by blast
  from none msg show ?thesis
    by (simp add: run_before_decorator_def run_after_decorator_def condition_for_decorator_def
        run_before_def run_after_def condition_for_def)
qed

theorem unregistered_target_rejected_witness:
  "obj_id demo_bar \<notin> dom (events st_demo)
   \<and> run_before_decorator demo_bar (Fn 9 ''subx'') st_demo
       = (Inl (EventNotRegistered (not_registered_msg demo_bar)), st_demo)
   \<and> run_after_decorator demo_bar (Fn 9 ''subx'') st_demo
       = (Inl (EventNotRegistered (not_registered_msg demo_bar)), st_demo)
   \<and> condition_for_decorator demo_bar (Fn 9 ''subx'') st_demo
       = (Inl (EventNotRegistered (not_registered_msg demo_bar)), st_demo)"
proof -
  have h: "obj_id demo_bar \<notin> dom (events st_demo)"
    by (simp add: st_demo_def demo_bar_def)
  from h unregistered_target_rejected [OF h, of "Fn 9 ''subx''"] show ?thesis
    by simp
qed

text \<open>
  C3 as the specification states it fails: it speaks of every callable never promoted.
  The plain function \<^verbatim>\<open>bar\<close> was never promoted, but it was created at identity 1, the
  stale key of \<open>st_stale\<close>. The three decorators accept it: they raise nothing, return the
  subscriber, and append it to the record the dead event left.
\<close>

theorem never_promoted_accepted:
  "\<not> promoted (Fn 1 ''bar'')
   \<and> run_before_decorator (Fn 1 ''bar'') (Fn 9 ''subx'') st_stale
       = (Inr (Fn 9 ''subx''),
          st_stale\<lparr>events := [1 \<mapsto> ([Fn 5 ''sub1'', Fn 9 ''subx''], [], [])]\<rparr>)
   \<and> run_after_decorator (Fn 1 ''bar'') (Fn 9 ''subx'') st_stale
       = (Inr (Fn 9 ''subx''),
          st_stale\<lparr>events := [1 \<mapsto> ([Fn 5 ''sub1''], [Fn 9 ''subx''], [])]\<rparr>)
   \<and> condition_for_decorator (Fn 1 ''bar'') (Fn 9 ''subx'') st_stale
       = (Inr (Fn 9 ''subx''),
          st_stale\<lparr>events := [1 \<mapsto> ([Fn 5 ''sub1''], [], [Fn 9 ''subx''])]\<rparr>)
   \<and> run_before_decorator (Fn 1 ''bar'') (Fn 9 ''subx'') st_stale
       \<noteq> (Inl (EventNotRegistered (not_registered_msg (Fn 1 ''bar''))), st_stale)
   \<and> events (snd (run_before_decorator (Fn 1 ''bar'') (Fn 9 ''subx'') st_stale))
       \<noteq> events st_stale"
proof -
  have before: "run_before_decorator (Fn 1 ''bar'') (Fn 9 ''subx'') st_stale
       = (Inr (Fn 9 ''subx''),
          st_stale\<lparr>events := [1 \<mapsto> ([Fn 5 ''sub1'', Fn 9 ''subx''], [], [])]\<rparr>)"
    by (simp add: run_before_decorator_def st_stale_events)
  have after: "run_after_decorator (Fn 1 ''bar'') (Fn 9 ''subx'') st_stale
       = (Inr (Fn 9 ''subx''),
          st_stale\<lparr>events := [1 \<mapsto> ([Fn 5 ''sub1''], [Fn 9 ''subx''], [])]\<rparr>)"
    by (simp add: run_after_decorator_def st_stale_events)
  have cond: "condition_for_decorator (Fn 1 ''bar'') (Fn 9 ''subx'') st_stale
       = (Inr (Fn 9 ''subx''),
          st_stale\<lparr>events := [1 \<mapsto> ([Fn 5 ''sub1''], [], [Fn 9 ''subx''])]\<rparr>)"
    by (simp add: condition_for_decorator_def st_stale_events)
  from before have no_error: "run_before_decorator (Fn 1 ''bar'') (Fn 9 ''subx'') st_stale
       \<noteq> (Inl (EventNotRegistered (not_registered_msg (Fn 1 ''bar''))), st_stale)"
    by simp
  from before have "events (snd (run_before_decorator (Fn 1 ''bar'') (Fn 9 ''subx'') st_stale))
       = [1 \<mapsto> ([Fn 5 ''sub1'', Fn 9 ''subx''], [], [])]"
    by simp
  then have "events (snd (run_before_decorator (Fn 1 ''bar'') (Fn 9 ''subx'') st_stale)) 1
       \<noteq> events st_stale 1"
    by (simp add: st_stale_events)
  then have changed: "events (snd (run_before_decorator (Fn 1 ''bar'') (Fn 9 ''subx'') st_stale))
       \<noteq> events st_stale"
    by metis
  have plain: "\<not> promoted (Fn 1 ''bar'')"
    by simp
  from plain before after cond no_error changed show ?thesis
    by (intro conjI)
qed

text \<open>
  C10. Called with an event only (\<open>fn\<close> is \<^verbatim>\<open>None\<close>), each registration function returns
  its decorator and raises nothing, whatever the event is and with the state unchanged.
  When the event was never promoted, the error comes when that decorator is applied.
\<close>

theorem partial_application_never_raises:
  "run_before ev None st = (Inr (run_before_decorator ev), st)
   \<and> run_after ev None st = (Inr (run_after_decorator ev), st)
   \<and> condition_for ev None st = (Inr (condition_for_decorator ev), st)
   \<and> (obj_id ev \<notin> dom (events st) \<longrightarrow>
        (\<forall>f. run_before_decorator ev f st = (Inl (EventNotRegistered (not_registered_msg ev)), st)
           \<and> run_after_decorator ev f st = (Inl (EventNotRegistered (not_registered_msg ev)), st)
           \<and> condition_for_decorator ev f st
                = (Inl (EventNotRegistered (not_registered_msg ev)), st)))"
proof -
  have partial: "run_before ev None st = (Inr (run_before_decorator ev), st)"
    "run_after ev None st = (Inr (run_after_decorator ev), st)"
    "condition_for ev None st = (Inr (condition_for_decorator ev), st)"
    by (simp_all add: run_before_def run_after_def condition_for_def)
  have later: "run_before_decorator ev f st = (Inl (EventNotRegistered (not_registered_msg ev)), st)
           \<and> run_after_decorator ev f st = (Inl (EventNotRegistered (not_registered_msg ev)), st)
           \<and> condition_for_decorator ev f st
                = (Inl (EventNotRegistered (not_registered_msg ev)), st)"
    if "obj_id ev \<notin> dom (events st)" for f
    using not_promoted [OF that]
    by (simp add: run_before_decorator_def run_after_decorator_def condition_for_decorator_def)
  from partial later show ?thesis
    by blast
qed

theorem partial_application_never_raises_witness:
  "obj_id demo_bar \<notin> dom (events st_demo)
   \<and> run_before demo_bar None st_demo = (Inr (run_before_decorator demo_bar), st_demo)
   \<and> run_before_decorator demo_bar (Fn 9 ''subx'') st_demo
        = (Inl (EventNotRegistered (not_registered_msg demo_bar)), st_demo)"
proof -
  have h: "obj_id demo_bar \<notin> dom (events st_demo)"
    by (simp add: st_demo_def demo_bar_def)
  from h partial_application_never_raises [of demo_bar st_demo] show ?thesis
    by simp
qed

text \<open>
  C7. On a promoted event, a decorator appends the subscriber to its list and returns the
  subscriber itself. The direct call \<open>run_before ev (Some f)\<close> leaves the state the
  decorator leaves and returns the decorator, the value the call without subscriber
  returns; applied to a further subscriber \<open>g\<close>, that decorator registers \<open>g\<close> after \<open>f\<close>.
  The same holds of \<open>run_after\<close> and \<open>condition_for\<close>.
\<close>

theorem registration_returns:
  assumes "events st (obj_id ev) = Some (before, after, conditions)"
  shows "run_before_decorator ev f st
           = (Inr f, st\<lparr>events := (events st)(obj_id ev \<mapsto> (before @ [f], after, conditions))\<rparr>)
       \<and> run_after_decorator ev f st
           = (Inr f, st\<lparr>events := (events st)(obj_id ev \<mapsto> (before, after @ [f], conditions))\<rparr>)
       \<and> condition_for_decorator ev f st
           = (Inr f, st\<lparr>events := (events st)(obj_id ev \<mapsto> (before, after, conditions @ [f]))\<rparr>)
       \<and> run_before ev (Some f) st
           = (Inr (run_before_decorator ev), snd (run_before_decorator ev f st))
       \<and> run_after ev (Some f) st
           = (Inr (run_after_decorator ev), snd (run_after_decorator ev f st))
       \<and> condition_for ev (Some f) st
           = (Inr (condition_for_decorator ev), snd (condition_for_decorator ev f st))
       \<and> fst (run_before ev (Some f) st) = fst (run_before ev None st)
       \<and> fst (run_after ev (Some f) st) = fst (run_after ev None st)
       \<and> fst (condition_for ev (Some f) st) = fst (condition_for ev None st)
       \<and> run_before_decorator ev g (snd (run_before ev (Some f) st))
           = (Inr g, st\<lparr>events := (events st)(obj_id ev \<mapsto> (before @ [f, g], after, conditions))\<rparr>)
       \<and> run_after_decorator ev g (snd (run_after ev (Some f) st))
           = (Inr g, st\<lparr>events := (events st)(obj_id ev \<mapsto> (before, after @ [f, g], conditions))\<rparr>)
       \<and> condition_for_decorator ev g (snd (condition_for ev (Some f) st))
           = (Inr g, st\<lparr>events := (events st)(obj_id ev \<mapsto> (before, after, conditions @ [f, g]))\<rparr>)"
  using assms
  by (simp add: run_before_def run_after_def condition_for_def run_before_decorator_def
      run_after_decorator_def condition_for_decorator_def)

theorem registration_returns_witness:
  "events st_demo (obj_id demo_foo) = Some ([Fn 5 ''sub1''], [Fn 6 ''sub2''], [Fn 7 ''cond1''])
   \<and> run_before_decorator demo_foo (Fn 8 ''f'') st_demo
        = (Inr (Fn 8 ''f''),
           st_demo\<lparr>events := (events st_demo)(obj_id demo_foo \<mapsto>
              ([Fn 5 ''sub1'', Fn 8 ''f''], [Fn 6 ''sub2''], [Fn 7 ''cond1'']))\<rparr>)
   \<and> fst (run_after demo_foo (Some (Fn 8 ''f'')) st_demo) = Inr (run_after_decorator demo_foo)
   \<and> condition_for_decorator demo_foo (Fn 9 ''g'')
          (snd (condition_for demo_foo (Some (Fn 8 ''f'')) st_demo))
        = (Inr (Fn 9 ''g''),
           st_demo\<lparr>events := (events st_demo)(obj_id demo_foo \<mapsto>
              ([Fn 5 ''sub1''], [Fn 6 ''sub2''], [Fn 7 ''cond1'', Fn 8 ''f'', Fn 9 ''g'']))\<rparr>)"
proof -
  have h: "events st_demo (obj_id demo_foo)
             = Some ([Fn 5 ''sub1''], [Fn 6 ''sub2''], [Fn 7 ''cond1''])"
    by (simp add: st_demo_def demo_foo_def)
  from h registration_returns [OF h, of "Fn 8 ''f''" "Fn 9 ''g''"] show ?thesis
    by auto
qed

text \<open>
  C8. Of two promoted events with different identities, registering on the first appends
  to the one list of its record that the operation names, keeps its two other lists, and
  keeps the record of the second event.
\<close>

theorem registration_frame:
  assumes "obj_id ev1 \<noteq> obj_id ev2"
    and "events st (obj_id ev1) = Some (before, after, conditions)"
    and "events st (obj_id ev2) = Some other"
  shows "events (snd (run_before_decorator ev1 f st)) (obj_id ev1)
           = Some (before @ [f], after, conditions)
       \<and> events (snd (run_before_decorator ev1 f st)) (obj_id ev2) = Some other
       \<and> events (snd (run_after_decorator ev1 f st)) (obj_id ev1)
           = Some (before, after @ [f], conditions)
       \<and> events (snd (run_after_decorator ev1 f st)) (obj_id ev2) = Some other
       \<and> events (snd (condition_for_decorator ev1 f st)) (obj_id ev1)
           = Some (before, after, conditions @ [f])
       \<and> events (snd (condition_for_decorator ev1 f st)) (obj_id ev2) = Some other
       \<and> events (snd (run_before ev1 (Some f) st)) (obj_id ev2) = Some other
       \<and> events (snd (run_after ev1 (Some f) st)) (obj_id ev2) = Some other
       \<and> events (snd (condition_for ev1 (Some f) st)) (obj_id ev2) = Some other"
  using assms
  by (simp add: run_before_def run_after_def condition_for_def run_before_decorator_def
      run_after_decorator_def condition_for_decorator_def)

theorem registration_frame_witness:
  "obj_id demo_foo \<noteq> obj_id demo_baz
   \<and> events st_demo (obj_id demo_foo) = Some ([Fn 5 ''sub1''], [Fn 6 ''sub2''], [Fn 7 ''cond1''])
   \<and> events st_demo (obj_id demo_baz) = Some ([], [], [])
   \<and> events (snd (run_before_decorator demo_foo (Fn 8 ''f'') st_demo)) (obj_id demo_foo)
        = Some ([Fn 5 ''sub1'', Fn 8 ''f''], [Fn 6 ''sub2''], [Fn 7 ''cond1''])
   \<and> events (snd (run_before_decorator demo_foo (Fn 8 ''f'') st_demo)) (obj_id demo_baz)
        = Some ([], [], [])
   \<and> events (snd (condition_for demo_foo (Some (Fn 8 ''f'')) st_demo)) (obj_id demo_baz)
        = Some ([], [], [])"
proof -
  have h1: "obj_id demo_foo \<noteq> obj_id demo_baz"
    by (simp add: demo_foo_def demo_baz_def)
  have h2: "events st_demo (obj_id demo_foo)
              = Some ([Fn 5 ''sub1''], [Fn 6 ''sub2''], [Fn 7 ''cond1''])"
    by (simp add: st_demo_def demo_foo_def)
  have h3: "events st_demo (obj_id demo_baz) = Some ([], [], [])"
    by (simp add: st_demo_def demo_baz_def)
  from h1 h2 h3 registration_frame [OF h1 h2 h3, of "Fn 8 ''f''"] show ?thesis
    by simp
qed

section \<open>Promotion\<close>

text \<open>
  C4, as amended. The identity \<open>a\<close> of the new closure is the runtime's choice.
  \<open>event a f\<close> returns the closure over \<open>f\<close> at \<open>a\<close>, stores three empty lists under \<open>a\<close>,
  keeps the record under every other identity, adds no other key, and neither calls \<open>f\<close>
  nor touches the host state; when \<open>a\<close> is not yet a key, every record the registry had
  is kept. Promoting \<open>f\<close> again at another identity \<open>a2\<close> (two events alive together
  have different identities) gives the event of handle \<open>a2\<close>; both records are empty, and
  registering on either event leaves the record of the other empty.
\<close>

theorem event_promotes:
  "fst (event a f st) = CallsSubs a f
   \<and> obj_id (fst (event a f st)) = a
   \<and> events (snd (event a f st)) a = Some ([], [], [])
   \<and> (\<forall>k. k \<noteq> a \<longrightarrow> events (snd (event a f st)) k = events st k)
   \<and> (a \<notin> dom (events st) \<longrightarrow>
        (\<forall>k \<in> dom (events st). events (snd (event a f st)) k = events st k))
   \<and> dom (events (snd (event a f st))) = insert a (dom (events st))
   \<and> host (snd (event a f st)) = host st
   \<and> calls (snd (event a f st)) = calls st
   \<and> (\<forall>a2. a2 \<noteq> a \<longrightarrow>
        obj_id (fst (event a2 f (snd (event a f st)))) = a2
        \<and> events (snd (event a2 f (snd (event a f st)))) a = Some ([], [], [])
        \<and> events (snd (event a2 f (snd (event a f st)))) a2 = Some ([], [], [])
        \<and> (\<forall>g. events (snd (run_before_decorator (fst (event a f st)) g
                       (snd (event a2 f (snd (event a f st)))))) a2 = Some ([], [], [])
              \<and> events (snd (run_after_decorator (fst (event a f st)) g
                       (snd (event a2 f (snd (event a f st)))))) a2 = Some ([], [], [])
              \<and> events (snd (condition_for_decorator (fst (event a f st)) g
                       (snd (event a2 f (snd (event a f st)))))) a2 = Some ([], [], [])
              \<and> events (snd (run_before_decorator (fst (event a2 f (snd (event a f st)))) g
                       (snd (event a2 f (snd (event a f st)))))) a = Some ([], [], [])
              \<and> events (snd (run_after_decorator (fst (event a2 f (snd (event a f st)))) g
                       (snd (event a2 f (snd (event a f st)))))) a = Some ([], [], [])
              \<and> events (snd (condition_for_decorator (fst (event a2 f (snd (event a f st)))) g
                       (snd (event a2 f (snd (event a f st)))))) a = Some ([], [], [])))"
  by (auto simp: event_def run_before_decorator_def run_after_decorator_def
      condition_for_decorator_def)

theorem event_promotes_witness:
  "(1 :: nat) \<noteq> 4
   \<and> 4 \<notin> dom (events st_demo)
   \<and> 1 \<in> dom (events st_demo)
   \<and> (6 :: nat) \<noteq> 4
   \<and> fst (event 4 (Fn 102 ''return5'') st_demo) = CallsSubs 4 (Fn 102 ''return5'')
   \<and> events (snd (event 4 (Fn 102 ''return5'') st_demo)) 4 = Some ([], [], [])
   \<and> events (snd (event 4 (Fn 102 ''return5'') st_demo)) 1 = events st_demo 1
   \<and> obj_id (fst (event 6 (Fn 102 ''return5'') (snd (event 4 (Fn 102 ''return5'') st_demo))))
        = 6
   \<and> events (snd (event 6 (Fn 102 ''return5'') (snd (event 4 (Fn 102 ''return5'') st_demo)))) 4
        = Some ([], [], [])
   \<and> events (snd (event 6 (Fn 102 ''return5'') (snd (event 4 (Fn 102 ''return5'') st_demo)))) 6
        = Some ([], [], [])
   \<and> events (snd (run_before_decorator (fst (event 4 (Fn 102 ''return5'') st_demo))
                    (Fn 9 ''subx'')
                    (snd (event 6 (Fn 102 ''return5'')
                            (snd (event 4 (Fn 102 ''return5'') st_demo)))))) 6
        = Some ([], [], [])"
proof -
  have d1: "(1 :: nat) \<noteq> 4" and d2: "(6 :: nat) \<noteq> 4"
    by simp_all
  have h: "4 \<notin> dom (events st_demo)"
    by (simp add: st_demo_def)
  have k: "1 \<in> dom (events st_demo)"
    by (simp add: st_demo_def)
  note t = event_promotes [of 4 "Fn 102 ''return5''" st_demo]
  from t have c1: "fst (event 4 (Fn 102 ''return5'') st_demo) = CallsSubs 4 (Fn 102 ''return5'')"
    and c2: "events (snd (event 4 (Fn 102 ''return5'') st_demo)) 4 = Some ([], [], [])"
    by simp_all
  from t h k have c3: "events (snd (event 4 (Fn 102 ''return5'') st_demo)) 1 = events st_demo 1"
    by blast
  from t d2 have
    c4: "obj_id (fst (event 6 (Fn 102 ''return5'') (snd (event 4 (Fn 102 ''return5'') st_demo))))
        = 6"
    and c5: "events (snd (event 6 (Fn 102 ''return5'')
                            (snd (event 4 (Fn 102 ''return5'') st_demo)))) 4
        = Some ([], [], [])"
    and c6: "events (snd (event 6 (Fn 102 ''return5'')
                            (snd (event 4 (Fn 102 ''return5'') st_demo)))) 6
        = Some ([], [], [])"
    and c7: "events (snd (run_before_decorator (fst (event 4 (Fn 102 ''return5'') st_demo))
                    (Fn 9 ''subx'')
                    (snd (event 6 (Fn 102 ''return5'')
                            (snd (event 4 (Fn 102 ''return5'') st_demo)))))) 6
        = Some ([], [], [])"
    by blast+
  from d1 h k d2 c1 c2 c3 c4 c5 c6 c7 show ?thesis
    by (intro conjI)
qed

text \<open>
  C4 as the specification states it fails: the handle need not be fresh, and a record
  of the registry can be modified. In \<open>st_stale\<close> the record of the dead event is under
  identity 1; a
  promotion whose closure the runtime creates at identity 1 replaces that record by three
  empty lists. And two promotions of \<^verbatim>\<open>foo\<close>, the first closure freed before the second is
  created at the same identity, give the same handle twice.
\<close>

theorem event_reuses_identity:
  "1 \<in> dom (events st_stale)
   \<and> events st_stale 1 = Some ([Fn 5 ''sub1''], [], [])
   \<and> events (snd (event 1 (Fn 102 ''return5'') st_stale)) 1 = Some ([], [], [])
   \<and> events (snd (event 1 (Fn 102 ''return5'') st_stale)) 1 \<noteq> events st_stale 1
   \<and> obj_id (fst (event 1 (Fn 100 ''foo'') (snd (event 1 (Fn 100 ''foo'') st_empty))))
       = obj_id (fst (event 1 (Fn 100 ''foo'') st_empty))"
  by (simp add: st_stale_events event_def)

section \<open>Dispatch\<close>

lemma invoke_result:
  assumes "call beh c as (host st) = (r, w')"
  shows "invoke beh c as st
           = (r, st\<lparr>host := w', calls := calls st @ [\<lparr>callee = c, passed = as, outcome = r\<rparr>]\<rparr>)"
  using assms by (simp add: invoke_def)

text \<open>Conditions that return true are all evaluated, and the loop goes on with the rest.\<close>

lemma conditions_loop_prefix:
  assumes "\<forall>c \<in> set pre. returns_true beh c as"
  shows "\<exists>st1 new. events st1 = events st \<and> calls st1 = calls st @ new
           \<and> map callee new = pre \<and> passed_all as new \<and> (\<forall>x \<in> set new. said_yes x)
           \<and> (\<forall>rest. conditions_loop beh (pre @ rest) as st = conditions_loop beh rest as st1)"
  using assms
proof (induction pre arbitrary: st)
  case Nil
  have "events st = events st \<and> calls st = calls st @ []
           \<and> map callee [] = [] \<and> passed_all as [] \<and> (\<forall>x \<in> set []. said_yes x)
           \<and> (\<forall>rest. conditions_loop beh ([] @ rest) as st = conditions_loop beh rest as st)"
    by simp
  then show ?case
    by (intro exI)
next
  case (Cons c cs)
  from Cons.prems obtain v w' where c: "call beh c as (host st) = (Inr v, w')" "truthy v"
    by (meson list.set_intros(1))
  let ?x = "\<lparr>callee = c, passed = as, outcome = Inr v\<rparr>"
  let ?st1 = "st\<lparr>host := w', calls := calls st @ [?x]\<rparr>"
  from Cons.prems have "\<forall>c \<in> set cs. returns_true beh c as"
    by simp
  from Cons.IH [OF this, of ?st1] obtain st' new where
    rest: "events st' = events ?st1" "calls st' = calls ?st1 @ new"
      "map callee new = cs" "passed_all as new" "\<forall>x \<in> set new. said_yes x"
      "\<forall>rest. conditions_loop beh (cs @ rest) as ?st1 = conditions_loop beh rest as st'"
    by blast
  from c rest(6)
  have "\<forall>rest. conditions_loop beh ((c # cs) @ rest) as st = conditions_loop beh rest as st'"
    by (simp add: invoke_result)
  moreover from rest have "events st' = events st" "calls st' = calls st @ (?x # new)"
    by simp_all
  moreover from rest c(2) have "map callee (?x # new) = c # cs" "passed_all as (?x # new)"
    "\<forall>x \<in> set (?x # new). said_yes x"
    by simp_all
  ultimately have "events st' = events st \<and> calls st' = calls st @ (?x # new)
      \<and> map callee (?x # new) = c # cs \<and> passed_all as (?x # new)
      \<and> (\<forall>x \<in> set (?x # new). said_yes x)
      \<and> (\<forall>rest. conditions_loop beh ((c # cs) @ rest) as st = conditions_loop beh rest as st')"
    by simp
  then show ?case
    by (intro exI)
qed

text \<open>Subscribers that return are all run, and the loop goes on with the rest.\<close>

lemma subs_loop_prefix:
  assumes "\<forall>c \<in> set pre. returns beh c as"
  shows "\<exists>st1 new. events st1 = events st \<and> calls st1 = calls st @ new
           \<and> map callee new = pre \<and> passed_all as new \<and> (\<forall>x \<in> set new. returned x)
           \<and> (\<forall>rest. subs_loop beh (pre @ rest) as st = subs_loop beh rest as st1)"
  using assms
proof (induction pre arbitrary: st)
  case Nil
  have "events st = events st \<and> calls st = calls st @ []
           \<and> map callee [] = [] \<and> passed_all as [] \<and> (\<forall>x \<in> set []. returned x)
           \<and> (\<forall>rest. subs_loop beh ([] @ rest) as st = subs_loop beh rest as st)"
    by simp
  then show ?case
    by (intro exI)
next
  case (Cons c cs)
  from Cons.prems obtain v w' where c: "call beh c as (host st) = (Inr v, w')"
    by (meson list.set_intros(1))
  let ?x = "\<lparr>callee = c, passed = as, outcome = Inr v\<rparr>"
  let ?st1 = "st\<lparr>host := w', calls := calls st @ [?x]\<rparr>"
  from Cons.prems have "\<forall>c \<in> set cs. returns beh c as"
    by simp
  from Cons.IH [OF this, of ?st1] obtain st' new where
    rest: "events st' = events ?st1" "calls st' = calls ?st1 @ new"
      "map callee new = cs" "passed_all as new" "\<forall>x \<in> set new. returned x"
      "\<forall>rest. subs_loop beh (cs @ rest) as ?st1 = subs_loop beh rest as st'"
    by blast
  from c rest(6)
  have "\<forall>rest. subs_loop beh ((c # cs) @ rest) as st = subs_loop beh rest as st'"
    by (simp add: invoke_result)
  moreover from rest have "events st' = events st" "calls st' = calls st @ (?x # new)"
    by simp_all
  moreover from rest have "map callee (?x # new) = c # cs" "passed_all as (?x # new)"
    "\<forall>x \<in> set (?x # new). returned x"
    by simp_all
  ultimately have "events st' = events st \<and> calls st' = calls st @ (?x # new)
      \<and> map callee (?x # new) = c # cs \<and> passed_all as (?x # new)
      \<and> (\<forall>x \<in> set (?x # new). returned x)
      \<and> (\<forall>rest. subs_loop beh ((c # cs) @ rest) as st = subs_loop beh rest as st')"
    by simp
  then show ?case
    by (intro exI)
qed

text \<open>
  When some condition returns a false value and those before it in the list do not raise,
  the loop returns early, at that condition or at an earlier one that returned a false
  value.
\<close>

lemma conditions_loop_veto:
  assumes "\<forall>x \<in> set pre. returns beh x as"
    and "returns_false beh c as"
  shows "\<exists>st' pre' c' post' news lst. pre @ c # post = pre' @ c' # post'
           \<and> length pre' \<le> length pre
           \<and> conditions_loop beh (pre @ c # post) as st = (Inr False, st')
           \<and> events st' = events st \<and> calls st' = calls st @ news @ [lst]
           \<and> map callee news = pre' \<and> callee lst = c' \<and> passed_all as (news @ [lst])
           \<and> (\<forall>x \<in> set news. said_yes x) \<and> said_no lst"
  using assms(1)
proof (induction pre arbitrary: st)
  case Nil
  from assms(2) obtain v w' where c: "call beh c as (host st) = (Inr v, w')" "\<not> truthy v"
    by blast
  let ?x = "\<lparr>callee = c, passed = as, outcome = Inr v\<rparr>"
  let ?st1 = "st\<lparr>host := w', calls := calls st @ [?x]\<rparr>"
  from c have "[] @ c # post = [] @ c # post \<and> length ([] :: callable list) \<le> length ([] :: callable list)
           \<and> conditions_loop beh ([] @ c # post) as st = (Inr False, ?st1)
           \<and> events ?st1 = events st \<and> calls ?st1 = calls st @ [] @ [?x]
           \<and> map callee [] = [] \<and> callee ?x = c \<and> passed_all as ([] @ [?x])
           \<and> (\<forall>x \<in> set []. said_yes x) \<and> said_no ?x"
    by (simp add: invoke_result)
  then show ?case
    by (intro exI)
next
  case (Cons x xs)
  from Cons.prems obtain v w' where x: "call beh x as (host st) = (Inr v, w')"
    by (meson list.set_intros(1))
  let ?x = "\<lparr>callee = x, passed = as, outcome = Inr v\<rparr>"
  let ?st1 = "st\<lparr>host := w', calls := calls st @ [?x]\<rparr>"
  show ?case
  proof (cases "truthy v")
    case False
    with x have "(x # xs) @ c # post = [] @ x # (xs @ c # post)
           \<and> length ([] :: callable list) \<le> length (x # xs)
           \<and> conditions_loop beh ((x # xs) @ c # post) as st = (Inr False, ?st1)
           \<and> events ?st1 = events st \<and> calls ?st1 = calls st @ [] @ [?x]
           \<and> map callee [] = [] \<and> callee ?x = x \<and> passed_all as ([] @ [?x])
           \<and> (\<forall>x \<in> set []. said_yes x) \<and> said_no ?x"
      by (simp add: invoke_result)
    then show ?thesis
      by (intro exI)
  next
    case True
    from Cons.prems have "\<forall>x \<in> set xs. returns beh x as"
      by simp
    from Cons.IH [OF this, of ?st1] obtain st' pre' c' post' news lst where
      rest: "xs @ c # post = pre' @ c' # post'" "length pre' \<le> length xs"
        "conditions_loop beh (xs @ c # post) as ?st1 = (Inr False, st')"
        "events st' = events ?st1" "calls st' = calls ?st1 @ news @ [lst]"
        "map callee news = pre'" "callee lst = c'" "passed_all as (news @ [lst])"
        "\<forall>x \<in> set news. said_yes x" "said_no lst"
      by blast
    from x True rest(3)
    have f3: "conditions_loop beh ((x # xs) @ c # post) as st = (Inr False, st')"
      by (simp add: invoke_result)
    from rest(1) have f1: "(x # xs) @ c # post = (x # pre') @ c' # post'"
      by simp
    from rest(2) have f2: "length (x # pre') \<le> length (x # xs)"
      by simp
    from rest(4) have f4: "events st' = events st"
      by simp
    from rest(5) have f5: "calls st' = calls st @ (?x # news) @ [lst]"
      by simp
    from rest(6) have f6: "map callee (?x # news) = x # pre'"
      by simp
    from rest(8) have f8: "passed_all as ((?x # news) @ [lst])"
      by simp
    from rest(9) True have f9: "\<forall>x \<in> set (?x # news). said_yes x"
      by simp
    from f1 f2 f3 f4 f5 f6 rest(7) f8 f9 rest(10)
    have "(x # xs) @ c # post = (x # pre') @ c' # post'
           \<and> length (x # pre') \<le> length (x # xs)
           \<and> conditions_loop beh ((x # xs) @ c # post) as st = (Inr False, st')
           \<and> events st' = events st \<and> calls st' = calls st @ (?x # news) @ [lst]
           \<and> map callee (?x # news) = x # pre' \<and> callee lst = c'
           \<and> passed_all as ((?x # news) @ [lst])
           \<and> (\<forall>x \<in> set (?x # news). said_yes x) \<and> said_no lst"
      by (intro conjI)
    then show ?thesis
      by (intro exI)
  qed
qed

lemma dispatch_vetoed:
  assumes reg: "events st self = Some (before, after, conditions)"
    and "conditions = pre @ c # post"
    and "\<forall>x \<in> set pre. returns beh x as"
    and "returns_false beh c as"
  shows "\<exists>st' pre' c' post' news lst. conditions = pre' @ c' # post'
           \<and> length pre' \<le> length pre
           \<and> calls_subs beh self f as st = (Inr VNone, st')
           \<and> events st' = events st \<and> calls st' = calls st @ news @ [lst]
           \<and> map callee news = pre' \<and> callee lst = c' \<and> passed_all as (news @ [lst])
           \<and> (\<forall>x \<in> set news. said_yes x) \<and> said_no lst"
proof -
  from conditions_loop_veto [OF assms(3,4), of post st] obtain st' pre' c' post' news lst where
    loop: "pre @ c # post = pre' @ c' # post'" "length pre' \<le> length pre"
      "conditions_loop beh (pre @ c # post) as st = (Inr False, st')"
      "events st' = events st" "calls st' = calls st @ news @ [lst]"
      "map callee news = pre'" "callee lst = c'" "passed_all as (news @ [lst])"
      "\<forall>x \<in> set news. said_yes x" "said_no lst"
    by blast
  from reg assms(2) loop(3) have run: "calls_subs beh self f as st = (Inr VNone, st')"
    by (simp add: calls_subs_def)
  from assms(2) loop(1) have split: "conditions = pre' @ c' # post'"
    by simp
  from split loop(2) run loop(4-10) have "conditions = pre' @ c' # post'
           \<and> length pre' \<le> length pre
           \<and> calls_subs beh self f as st = (Inr VNone, st')
           \<and> events st' = events st \<and> calls st' = calls st @ news @ [lst]
           \<and> map callee news = pre' \<and> callee lst = c' \<and> passed_all as (news @ [lst])
           \<and> (\<forall>x \<in> set news. said_yes x) \<and> said_no lst"
    by (intro conjI)
  then show ?thesis
    by (intro exI)
qed

lemma conditions_loop_all_true:
  assumes "\<forall>c \<in> set cs. returns_true beh c as"
  shows "\<exists>st1 new. conditions_loop beh cs as st = (Inr True, st1)
           \<and> events st1 = events st \<and> calls st1 = calls st @ new
           \<and> map callee new = cs \<and> passed_all as new \<and> (\<forall>x \<in> set new. said_yes x)"
proof -
  from conditions_loop_prefix [OF assms, of st] obtain st1 new where
    p: "events st1 = events st" "calls st1 = calls st @ new" "map callee new = cs"
      "passed_all as new" "\<forall>x \<in> set new. said_yes x"
      "\<forall>rest. conditions_loop beh (cs @ rest) as st = conditions_loop beh rest as st1"
    by blast
  from p(6) have "conditions_loop beh (cs @ []) as st = conditions_loop beh [] as st1"
    by (rule spec)
  then have "conditions_loop beh cs as st = (Inr True, st1)"
    by simp
  with p have "conditions_loop beh cs as st = (Inr True, st1)
           \<and> events st1 = events st \<and> calls st1 = calls st @ new
           \<and> map callee new = cs \<and> passed_all as new \<and> (\<forall>x \<in> set new. said_yes x)"
    by simp
  then show ?thesis
    by (intro exI)
qed

lemma subs_loop_all_return:
  assumes "\<forall>c \<in> set cs. returns beh c as"
  shows "\<exists>st1 new. subs_loop beh cs as st = (Inr (), st1)
           \<and> events st1 = events st \<and> calls st1 = calls st @ new
           \<and> map callee new = cs \<and> passed_all as new \<and> (\<forall>x \<in> set new. returned x)"
proof -
  from subs_loop_prefix [OF assms, of st] obtain st1 new where
    p: "events st1 = events st" "calls st1 = calls st @ new" "map callee new = cs"
      "passed_all as new" "\<forall>x \<in> set new. returned x"
      "\<forall>rest. subs_loop beh (cs @ rest) as st = subs_loop beh rest as st1"
    by blast
  from p(6) have "subs_loop beh (cs @ []) as st = subs_loop beh [] as st1"
    by (rule spec)
  then have "subs_loop beh cs as st = (Inr (), st1)"
    by simp
  with p have "subs_loop beh cs as st = (Inr (), st1)
           \<and> events st1 = events st \<and> calls st1 = calls st @ new
           \<and> map callee new = cs \<and> passed_all as new \<and> (\<forall>x \<in> set new. returned x)"
    by simp
  then show ?thesis
    by (intro exI)
qed

lemma conditions_loop_raise:
  assumes "\<forall>c \<in> set pre. returns_true beh c as"
    and "raises beh h as e"
  shows "\<exists>st1 news lst. conditions_loop beh (pre @ h # post) as st = (Inl e, st1)
           \<and> events st1 = events st \<and> calls st1 = calls st @ news @ [lst]
           \<and> map callee news = pre \<and> callee lst = h \<and> passed_all as (news @ [lst])
           \<and> (\<forall>x \<in> set news. said_yes x) \<and> outcome lst = Inl e"
proof -
  from conditions_loop_prefix [OF assms(1), of st] obtain st0 new where
    p: "events st0 = events st" "calls st0 = calls st @ new" "map callee new = pre"
      "passed_all as new" "\<forall>x \<in> set new. said_yes x"
      "\<forall>rest. conditions_loop beh (pre @ rest) as st = conditions_loop beh rest as st0"
    by blast
  from assms(2) obtain w' where h: "call beh h as (host st0) = (Inl e, w')"
    by blast
  let ?x = "\<lparr>callee = h, passed = as, outcome = Inl e\<rparr>"
  let ?st1 = "st0\<lparr>host := w', calls := calls st0 @ [?x]\<rparr>"
  from p(6) have "conditions_loop beh (pre @ h # post) as st
                    = conditions_loop beh (h # post) as st0"
    by (rule spec)
  with h have "conditions_loop beh (pre @ h # post) as st = (Inl e, ?st1)"
    by (simp add: invoke_result)
  with p have "conditions_loop beh (pre @ h # post) as st = (Inl e, ?st1)
           \<and> events ?st1 = events st \<and> calls ?st1 = calls st @ new @ [?x]
           \<and> map callee new = pre \<and> callee ?x = h \<and> passed_all as (new @ [?x])
           \<and> (\<forall>x \<in> set new. said_yes x) \<and> outcome ?x = Inl e"
    by simp
  then show ?thesis
    by (intro exI)
qed

lemma subs_loop_raise:
  assumes "\<forall>c \<in> set pre. returns beh c as"
    and "raises beh h as e"
  shows "\<exists>st1 news lst. subs_loop beh (pre @ h # post) as st = (Inl e, st1)
           \<and> events st1 = events st \<and> calls st1 = calls st @ news @ [lst]
           \<and> map callee news = pre \<and> callee lst = h \<and> passed_all as (news @ [lst])
           \<and> (\<forall>x \<in> set news. returned x) \<and> outcome lst = Inl e"
proof -
  from subs_loop_prefix [OF assms(1), of st] obtain st0 new where
    p: "events st0 = events st" "calls st0 = calls st @ new" "map callee new = pre"
      "passed_all as new" "\<forall>x \<in> set new. returned x"
      "\<forall>rest. subs_loop beh (pre @ rest) as st = subs_loop beh rest as st0"
    by blast
  from assms(2) obtain w' where h: "call beh h as (host st0) = (Inl e, w')"
    by blast
  let ?x = "\<lparr>callee = h, passed = as, outcome = Inl e\<rparr>"
  let ?st1 = "st0\<lparr>host := w', calls := calls st0 @ [?x]\<rparr>"
  from p(6) have "subs_loop beh (pre @ h # post) as st = subs_loop beh (h # post) as st0"
    by (rule spec)
  with h have "subs_loop beh (pre @ h # post) as st = (Inl e, ?st1)"
    by (simp add: invoke_result)
  with p have "subs_loop beh (pre @ h # post) as st = (Inl e, ?st1)
           \<and> events ?st1 = events st \<and> calls ?st1 = calls st @ new @ [?x]
           \<and> map callee new = pre \<and> callee ?x = h \<and> passed_all as (new @ [?x])
           \<and> (\<forall>x \<in> set new. returned x) \<and> outcome ?x = Inl e"
    by simp
  then show ?thesis
    by (intro exI)
qed

lemma dispatch_complete:
  assumes reg: "events st self = Some (before, after, conditions)"
    and conds: "\<forall>c \<in> set conditions. returns_true beh c as"
    and hooks: "\<forall>c \<in> set (before @ f # after). returns beh c as"
  shows "\<exists>st' cs bs b afs r. calls_subs beh self f as st = (Inr r, st')
           \<and> outcome b = Inr r \<and> (\<exists>w w'. call beh f as w = (Inr r, w'))
           \<and> events st' = events st \<and> calls st' = calls st @ cs @ bs @ [b] @ afs
           \<and> map callee cs = conditions \<and> map callee bs = before \<and> callee b = f
           \<and> map callee afs = after \<and> passed_all as (cs @ bs @ [b] @ afs)
           \<and> (\<forall>x \<in> set cs. said_yes x) \<and> (\<forall>x \<in> set (bs @ afs). returned x)"
proof -
  from conditions_loop_all_true [OF conds, of st] obtain st1 cs where
    c: "conditions_loop beh conditions as st = (Inr True, st1)"
      "events st1 = events st" "calls st1 = calls st @ cs" "map callee cs = conditions"
      "passed_all as cs" "\<forall>x \<in> set cs. said_yes x"
    by blast
  from hooks have hb: "\<forall>c \<in> set before. returns beh c as"
    and hf: "returns beh f as" and ha: "\<forall>c \<in> set after. returns beh c as"
    by simp_all
  from subs_loop_all_return [OF hb, of st1] obtain st2 bs where
    b: "subs_loop beh before as st1 = (Inr (), st2)"
      "events st2 = events st1" "calls st2 = calls st1 @ bs" "map callee bs = before"
      "passed_all as bs" "\<forall>x \<in> set bs. returned x"
    by blast
  from hf obtain r w3 where f: "call beh f as (host st2) = (Inr r, w3)"
    by blast
  let ?b = "\<lparr>callee = f, passed = as, outcome = Inr r\<rparr>"
  let ?st3 = "st2\<lparr>host := w3, calls := calls st2 @ [?b]\<rparr>"
  from f have body: "invoke beh f as st2 = (Inr r, ?st3)"
    by (rule invoke_result)
  from subs_loop_all_return [OF ha, of ?st3] obtain st4 afs where
    a: "subs_loop beh after as ?st3 = (Inr (), st4)"
      "events st4 = events ?st3" "calls st4 = calls ?st3 @ afs" "map callee afs = after"
      "passed_all as afs" "\<forall>x \<in> set afs. returned x"
    by blast
  from reg c(1) b(1) body a(1) have res: "calls_subs beh self f as st = (Inr r, st4)"
    by (simp add: calls_subs_def)
  from f have gen: "\<exists>w w'. call beh f as w = (Inr r, w')"
    by blast
  from c b a have ev: "events st4 = events st"
    and tr: "calls st4 = calls st @ cs @ bs @ [?b] @ afs"
    by simp_all
  from c(5) b(5) a(5) have pa: "passed_all as (cs @ bs @ [?b] @ afs)"
    by auto
  from b(6) a(6) have rt: "\<forall>x \<in> set (bs @ afs). returned x"
    by auto
  from res gen ev tr pa rt c(4,6) b(4) a(4)
  have "calls_subs beh self f as st = (Inr r, st4)
           \<and> outcome ?b = Inr r \<and> (\<exists>w w'. call beh f as w = (Inr r, w'))
           \<and> events st4 = events st \<and> calls st4 = calls st @ cs @ bs @ [?b] @ afs
           \<and> map callee cs = conditions \<and> map callee bs = before \<and> callee ?b = f
           \<and> map callee afs = after \<and> passed_all as (cs @ bs @ [?b] @ afs)
           \<and> (\<forall>x \<in> set cs. said_yes x) \<and> (\<forall>x \<in> set (bs @ afs). returned x)"
    by simp
  then show ?thesis
    by (intro exI)
qed

lemma dispatch_condition_raises:
  assumes reg: "events st self = Some (before, after, pre @ h # post)"
    and pre: "\<forall>c \<in> set pre. returns_true beh c as"
    and h: "raises beh h as e"
  shows "\<exists>st' news lst. calls_subs beh self f as st = (Inl e, st')
           \<and> events st' = events st \<and> calls st' = calls st @ news @ [lst]
           \<and> map callee news = pre \<and> callee lst = h \<and> outcome lst = Inl e
           \<and> passed_all as (news @ [lst])"
proof -
  from conditions_loop_raise [OF pre h, of post st] obtain st1 news lst where
    c: "conditions_loop beh (pre @ h # post) as st = (Inl e, st1)"
      "events st1 = events st" "calls st1 = calls st @ news @ [lst]"
      "map callee news = pre" "callee lst = h" "passed_all as (news @ [lst])"
      "outcome lst = Inl e"
    by blast
  from reg c(1) have "calls_subs beh self f as st = (Inl e, st1)"
    by (simp add: calls_subs_def)
  with c have "calls_subs beh self f as st = (Inl e, st1)
           \<and> events st1 = events st \<and> calls st1 = calls st @ news @ [lst]
           \<and> map callee news = pre \<and> callee lst = h \<and> outcome lst = Inl e
           \<and> passed_all as (news @ [lst])"
    by simp
  then show ?thesis
    by (intro exI)
qed

lemma dispatch_before_raises:
  assumes reg: "events st self = Some (pre @ h # post, after, conditions)"
    and conds: "\<forall>c \<in> set conditions. returns_true beh c as"
    and pre: "\<forall>c \<in> set pre. returns beh c as"
    and h: "raises beh h as e"
  shows "\<exists>st' cs news lst. calls_subs beh self f as st = (Inl e, st')
           \<and> events st' = events st \<and> calls st' = calls st @ cs @ news @ [lst]
           \<and> map callee cs = conditions \<and> map callee news = pre
           \<and> callee lst = h \<and> outcome lst = Inl e
           \<and> passed_all as (cs @ news @ [lst])"
proof -
  from conditions_loop_all_true [OF conds, of st] obtain st1 cs where
    c: "conditions_loop beh conditions as st = (Inr True, st1)"
      "events st1 = events st" "calls st1 = calls st @ cs" "map callee cs = conditions"
      "passed_all as cs"
    by blast
  from subs_loop_raise [OF pre h, of post st1] obtain st2 news lst where
    b: "subs_loop beh (pre @ h # post) as st1 = (Inl e, st2)"
      "events st2 = events st1" "calls st2 = calls st1 @ news @ [lst]"
      "map callee news = pre" "callee lst = h" "passed_all as (news @ [lst])"
      "outcome lst = Inl e"
    by blast
  from reg c(1) b(1) have "calls_subs beh self f as st = (Inl e, st2)"
    by (simp add: calls_subs_def)
  moreover from c(5) b(6) have "passed_all as (cs @ news @ [lst])"
    by auto
  ultimately have "calls_subs beh self f as st = (Inl e, st2)
           \<and> events st2 = events st \<and> calls st2 = calls st @ cs @ news @ [lst]
           \<and> map callee cs = conditions \<and> map callee news = pre
           \<and> callee lst = h \<and> outcome lst = Inl e
           \<and> passed_all as (cs @ news @ [lst])"
    using c b by simp
  then show ?thesis
    by (intro exI)
qed

lemma dispatch_body_raises:
  assumes reg: "events st self = Some (before, after, conditions)"
    and conds: "\<forall>c \<in> set conditions. returns_true beh c as"
    and hb: "\<forall>c \<in> set before. returns beh c as"
    and h: "raises beh f as e"
  shows "\<exists>st' cs bs lst. calls_subs beh self f as st = (Inl e, st')
           \<and> events st' = events st \<and> calls st' = calls st @ cs @ bs @ [lst]
           \<and> map callee cs = conditions \<and> map callee bs = before
           \<and> callee lst = f \<and> outcome lst = Inl e
           \<and> passed_all as (cs @ bs @ [lst])"
proof -
  from conditions_loop_all_true [OF conds, of st] obtain st1 cs where
    c: "conditions_loop beh conditions as st = (Inr True, st1)"
      "events st1 = events st" "calls st1 = calls st @ cs" "map callee cs = conditions"
      "passed_all as cs"
    by blast
  from subs_loop_all_return [OF hb, of st1] obtain st2 bs where
    b: "subs_loop beh before as st1 = (Inr (), st2)"
      "events st2 = events st1" "calls st2 = calls st1 @ bs" "map callee bs = before"
      "passed_all as bs"
    by blast
  from h obtain w3 where f: "call beh f as (host st2) = (Inl e, w3)"
    by blast
  let ?x = "\<lparr>callee = f, passed = as, outcome = Inl e\<rparr>"
  let ?st3 = "st2\<lparr>host := w3, calls := calls st2 @ [?x]\<rparr>"
  from f have body: "invoke beh f as st2 = (Inl e, ?st3)"
    by (rule invoke_result)
  from reg c(1) b(1) body have "calls_subs beh self f as st = (Inl e, ?st3)"
    by (simp add: calls_subs_def)
  moreover from c(5) b(5) have "passed_all as (cs @ bs @ [?x])"
    by auto
  ultimately have "calls_subs beh self f as st = (Inl e, ?st3)
           \<and> events ?st3 = events st \<and> calls ?st3 = calls st @ cs @ bs @ [?x]
           \<and> map callee cs = conditions \<and> map callee bs = before
           \<and> callee ?x = f \<and> outcome ?x = Inl e
           \<and> passed_all as (cs @ bs @ [?x])"
    using c b by simp
  then show ?thesis
    by (intro exI)
qed

lemma dispatch_after_raises:
  assumes reg: "events st self = Some (before, pre @ h # post, conditions)"
    and conds: "\<forall>c \<in> set conditions. returns_true beh c as"
    and hb: "\<forall>c \<in> set (before @ f # pre). returns beh c as"
    and h: "raises beh h as e"
  shows "\<exists>st' cs bs b news lst. calls_subs beh self f as st = (Inl e, st')
           \<and> events st' = events st \<and> calls st' = calls st @ cs @ bs @ [b] @ news @ [lst]
           \<and> map callee cs = conditions \<and> map callee bs = before
           \<and> callee b = f \<and> returned b \<and> map callee news = pre
           \<and> callee lst = h \<and> outcome lst = Inl e
           \<and> passed_all as (cs @ bs @ [b] @ news @ [lst])"
proof -
  from conditions_loop_all_true [OF conds, of st] obtain st1 cs where
    c: "conditions_loop beh conditions as st = (Inr True, st1)"
      "events st1 = events st" "calls st1 = calls st @ cs" "map callee cs = conditions"
      "passed_all as cs"
    by blast
  from hb have hbf: "\<forall>c \<in> set before. returns beh c as"
    and hf: "returns beh f as" and hp: "\<forall>c \<in> set pre. returns beh c as"
    by simp_all
  from subs_loop_all_return [OF hbf, of st1] obtain st2 bs where
    b: "subs_loop beh before as st1 = (Inr (), st2)"
      "events st2 = events st1" "calls st2 = calls st1 @ bs" "map callee bs = before"
      "passed_all as bs"
    by blast
  from hf obtain r w3 where f: "call beh f as (host st2) = (Inr r, w3)"
    by blast
  let ?b = "\<lparr>callee = f, passed = as, outcome = Inr r\<rparr>"
  let ?st3 = "st2\<lparr>host := w3, calls := calls st2 @ [?b]\<rparr>"
  from f have body: "invoke beh f as st2 = (Inr r, ?st3)"
    by (rule invoke_result)
  from subs_loop_raise [OF hp h, of post ?st3] obtain st4 news lst where
    a: "subs_loop beh (pre @ h # post) as ?st3 = (Inl e, st4)"
      "events st4 = events ?st3" "calls st4 = calls ?st3 @ news @ [lst]"
      "map callee news = pre" "callee lst = h" "passed_all as (news @ [lst])"
      "outcome lst = Inl e"
    by blast
  from reg c(1) b(1) body a(1) have "calls_subs beh self f as st = (Inl e, st4)"
    by (simp add: calls_subs_def)
  moreover from c(5) b(5) a(6) have "passed_all as (cs @ bs @ [?b] @ news @ [lst])"
    by auto
  ultimately have "calls_subs beh self f as st = (Inl e, st4)
           \<and> events st4 = events st \<and> calls st4 = calls st @ cs @ bs @ [?b] @ news @ [lst]
           \<and> map callee cs = conditions \<and> map callee bs = before
           \<and> callee ?b = f \<and> returned ?b \<and> map callee news = pre
           \<and> callee lst = h \<and> outcome lst = Inl e
           \<and> passed_all as (cs @ bs @ [?b] @ news @ [lst])"
    using c b a by simp
  then show ?thesis
    by (intro exI)
qed







text \<open>
  C1. The event is promoted, some condition \<open>c\<close> of its list returns a false value on the
  argument list, and the conditions registered before \<open>c\<close> do not raise on it. Then the
  dispatcher calls the conditions in their order up to the first one that returns a
  false value, \<open>c\<close> or one before it (the list is \<open>pre' @ c' # post'\<close>, the calls are those
  of \<open>pre'\<close>, each returning a true value, then \<open>c'\<close>), and makes no other call: no
  subscriber, not the body. Every call receives the argument list of the dispatch, and
  the dispatch returns \<^verbatim>\<open>None\<close>, not an error.
\<close>

theorem condition_veto:
  assumes "events st self = Some (before, after, conditions)"
    and "conditions = pre @ c # post"
    and "\<forall>x \<in> set pre. returns beh x as"
    and "returns_false beh c as"
  shows "\<exists>st' pre' c' post' news lst. conditions = pre' @ c' # post'
           \<and> length pre' \<le> length pre
           \<and> calls_subs beh self f as st = (Inr VNone, st')
           \<and> events st' = events st \<and> calls st' = calls st @ news @ [lst]
           \<and> map callee news = pre' \<and> callee lst = c' \<and> passed_all as (news @ [lst])
           \<and> (\<forall>x \<in> set news. said_yes x) \<and> said_no lst"
  using assms by (rule dispatch_vetoed)

theorem condition_veto_witness:
  "events (st_with ([increment], [increment], [always_true, always_false, boom])) 20
     = Some ([increment], [increment], [always_true, always_false, boom])
   \<and> [always_true, always_false, boom] = [always_true] @ always_false # [boom]
   \<and> returns demo_beh always_true demo_args
   \<and> returns_false demo_beh always_false demo_args
   \<and> (\<exists>st' pre' c' post' news lst. [always_true, always_false, boom] = pre' @ c' # post'
        \<and> length pre' \<le> length [always_true]
        \<and> calls_subs demo_beh 20 return5 demo_args
             (st_with ([increment], [increment], [always_true, always_false, boom]))
           = (Inr VNone, st')
        \<and> calls st' = calls (st_with ([increment], [increment],
                                   [always_true, always_false, boom])) @ news @ [lst]
        \<and> map callee news = pre' \<and> callee lst = c' \<and> said_no lst)
   \<and> calls_subs demo_beh 20 return5 demo_args
        (st_with ([increment], [increment], [always_true, always_false, boom]))
      = (Inr VNone,
         \<lparr>events = [20 \<mapsto> ([increment], [increment], [always_true, always_false, boom])],
          host = 0,
          calls = [\<lparr>callee = always_true, passed = demo_args, outcome = Inr (VBool True)\<rparr>,
                   \<lparr>callee = always_false, passed = demo_args, outcome = Inr (VBool False)\<rparr>]\<rparr>)"
proof -
  let ?st = "st_with ([increment], [increment], [always_true, always_false, boom])"
  have reg: "events ?st 20 = Some ([increment], [increment], [always_true, always_false, boom])"
    by (simp add: st_with_def)
  have split: "[always_true, always_false, boom] = [always_true] @ always_false # [boom]"
    by simp
  have ret: "\<forall>x \<in> set [always_true]. returns demo_beh x demo_args"
    by simp
  have yes: "returns demo_beh always_true demo_args"
    by simp
  have no: "returns_false demo_beh always_false demo_args"
    by simp
  from condition_veto [OF reg split ret no, of return5]
  obtain st' pre' c' post' news lst v where
    v: "[always_true, always_false, boom] = pre' @ c' # post'"
      "length pre' \<le> length [always_true]"
      "calls_subs demo_beh 20 return5 demo_args ?st = (Inr VNone, st')"
      "calls st' = calls ?st @ news @ [lst]" "map callee news = pre'" "callee lst = c'"
      "outcome lst = Inr v" "\<not> truthy v"
    by (elim exE conjE) (rule that)
  from v(7,8) have "said_no lst"
    by blast
  with v(1-6) have "[always_true, always_false, boom] = pre' @ c' # post'
        \<and> length pre' \<le> length [always_true]
        \<and> calls_subs demo_beh 20 return5 demo_args ?st = (Inr VNone, st')
        \<and> calls st' = calls ?st @ news @ [lst]
        \<and> map callee news = pre' \<and> callee lst = c' \<and> said_no lst"
    by (intro conjI)
  then have concl: "\<exists>st' pre' c' post' news lst.
        [always_true, always_false, boom] = pre' @ c' # post'
        \<and> length pre' \<le> length [always_true]
        \<and> calls_subs demo_beh 20 return5 demo_args ?st = (Inr VNone, st')
        \<and> calls st' = calls ?st @ news @ [lst]
        \<and> map callee news = pre' \<and> callee lst = c' \<and> said_no lst"
    by (intro exI)
  have run: "calls_subs demo_beh 20 return5 demo_args ?st
      = (Inr VNone,
         \<lparr>events = [20 \<mapsto> ([increment], [increment], [always_true, always_false, boom])],
          host = 0,
          calls = [\<lparr>callee = always_true, passed = demo_args, outcome = Inr (VBool True)\<rparr>,
                   \<lparr>callee = always_false, passed = demo_args, outcome = Inr (VBool False)\<rparr>]\<rparr>)"
    by (simp add: calls_subs_def st_with_def invoke_def)
  from reg split yes no concl run show ?thesis
    by (intro conjI)
qed

text \<open>
  C2. The event is promoted, every condition returns a true value on the argument list
  (none, when the list is empty), and neither a subscriber nor the body raises. Then the
  dispatcher calls the conditions, the before-subscribers, the body and the
  after-subscribers, each list in its order, every one with the argument list of the
  dispatch, and returns what the body returned, whatever the subscribers returned.
\<close>

theorem dispatch_runs_all:
  assumes "events st self = Some (before, after, conditions)"
    and "\<forall>c \<in> set conditions. returns_true beh c as"
    and "\<forall>c \<in> set (before @ f # after). returns beh c as"
  shows "\<exists>st' cs bs b afs r. calls_subs beh self f as st = (Inr r, st')
           \<and> outcome b = Inr r \<and> (\<exists>w w'. call beh f as w = (Inr r, w'))
           \<and> events st' = events st \<and> calls st' = calls st @ cs @ bs @ [b] @ afs
           \<and> map callee cs = conditions \<and> map callee bs = before \<and> callee b = f
           \<and> map callee afs = after \<and> passed_all as (cs @ bs @ [b] @ afs)
           \<and> (\<forall>x \<in> set cs. said_yes x) \<and> (\<forall>x \<in> set (bs @ afs). returned x)"
  using assms by (rule dispatch_complete)

theorem dispatch_runs_all_witness:
  "events (st_with ([increment], [increment, always_false], [always_true])) 20
     = Some ([increment], [increment, always_false], [always_true])
   \<and> returns_true demo_beh always_true demo_args
   \<and> returns demo_beh increment demo_args
   \<and> returns demo_beh return5 demo_args
   \<and> returns demo_beh always_false demo_args
   \<and> (\<exists>st' cs bs b afs r.
         calls_subs demo_beh 20 return5 demo_args
           (st_with ([increment], [increment, always_false], [always_true])) = (Inr r, st')
         \<and> outcome b = Inr r \<and> calls st' = cs @ bs @ [b] @ afs
         \<and> map callee cs = [always_true] \<and> map callee bs = [increment] \<and> callee b = return5
         \<and> map callee afs = [increment, always_false]
         \<and> passed_all demo_args (cs @ bs @ [b] @ afs))
   \<and> calls_subs demo_beh 20 return5 demo_args
        (st_with ([increment], [increment, always_false], [always_true]))
      = (Inr (VInt 5),
         \<lparr>events = [20 \<mapsto> ([increment], [increment, always_false], [always_true])],
          host = 2,
          calls = [\<lparr>callee = always_true, passed = demo_args, outcome = Inr (VBool True)\<rparr>,
                   \<lparr>callee = increment, passed = demo_args, outcome = Inr VNone\<rparr>,
                   \<lparr>callee = return5, passed = demo_args, outcome = Inr (VInt 5)\<rparr>,
                   \<lparr>callee = increment, passed = demo_args, outcome = Inr VNone\<rparr>,
                   \<lparr>callee = always_false, passed = demo_args, outcome = Inr (VBool False)\<rparr>]\<rparr>)"
proof -
  let ?st = "st_with ([increment], [increment, always_false], [always_true])"
  have reg: "events ?st 20 = Some ([increment], [increment, always_false], [always_true])"
    by (simp add: st_with_def)
  have conds: "\<forall>c \<in> set [always_true]. returns_true demo_beh c demo_args"
    by simp
  have hooks: "\<forall>c \<in> set ([increment] @ return5 # [increment, always_false]).
                 returns demo_beh c demo_args"
    by simp
  from dispatch_runs_all [OF reg conds hooks] obtain st' cs bs b afs r where
    v: "calls_subs demo_beh 20 return5 demo_args ?st = (Inr r, st')"
      "outcome b = Inr r" "calls st' = calls ?st @ cs @ bs @ [b] @ afs"
      "map callee cs = [always_true]" "map callee bs = [increment]" "callee b = return5"
      "map callee afs = [increment, always_false]"
      "passed_all demo_args (cs @ bs @ [b] @ afs)"
    by (elim exE conjE) (rule that)
  from v(3) have "calls st' = cs @ bs @ [b] @ afs"
    by (simp add: st_with_def)
  with v have "calls_subs demo_beh 20 return5 demo_args ?st = (Inr r, st')
         \<and> outcome b = Inr r \<and> calls st' = cs @ bs @ [b] @ afs
         \<and> map callee cs = [always_true] \<and> map callee bs = [increment] \<and> callee b = return5
         \<and> map callee afs = [increment, always_false]
         \<and> passed_all demo_args (cs @ bs @ [b] @ afs)"
    by simp
  then have concl: "\<exists>st' cs bs b afs r.
         calls_subs demo_beh 20 return5 demo_args ?st = (Inr r, st')
         \<and> outcome b = Inr r \<and> calls st' = cs @ bs @ [b] @ afs
         \<and> map callee cs = [always_true] \<and> map callee bs = [increment] \<and> callee b = return5
         \<and> map callee afs = [increment, always_false]
         \<and> passed_all demo_args (cs @ bs @ [b] @ afs)"
    by (intro exI)
  have run: "calls_subs demo_beh 20 return5 demo_args ?st
      = (Inr (VInt 5),
         \<lparr>events = [20 \<mapsto> ([increment], [increment, always_false], [always_true])],
          host = 2,
          calls = [\<lparr>callee = always_true, passed = demo_args, outcome = Inr (VBool True)\<rparr>,
                   \<lparr>callee = increment, passed = demo_args, outcome = Inr VNone\<rparr>,
                   \<lparr>callee = return5, passed = demo_args, outcome = Inr (VInt 5)\<rparr>,
                   \<lparr>callee = increment, passed = demo_args, outcome = Inr VNone\<rparr>,
                   \<lparr>callee = always_false, passed = demo_args, outcome = Inr (VBool False)\<rparr>]\<rparr>)"
    by (simp add: calls_subs_def st_with_def invoke_def)
  have each: "returns_true demo_beh always_true demo_args"
    "returns demo_beh increment demo_args" "returns demo_beh return5 demo_args"
    "returns demo_beh always_false demo_args"
    by simp_all
  from reg each concl run show ?thesis
    by (intro conjI)
qed

text \<open>
  C6. On a promoted event, the exception \<open>e\<close> of the first callable that raises is the
  outcome of the dispatch, and that call is the last one made: a condition (after
  conditions that returned true values), a before-subscriber (then neither the body nor
  an after-subscriber runs), the body, or an after-subscriber (then the remaining
  after-subscribers do not run, and the value the body returned is not the outcome).
\<close>

theorem errors_propagate:
  assumes reg: "events st self = Some (before, after, conditions)"
  shows "(\<forall>pre h post. conditions = pre @ h # post
            \<and> (\<forall>c \<in> set pre. returns_true beh c as) \<and> raises beh h as e \<longrightarrow>
          (\<exists>st' news lst. calls_subs beh self f as st = (Inl e, st')
             \<and> events st' = events st \<and> calls st' = calls st @ news @ [lst]
             \<and> map callee news = pre \<and> callee lst = h \<and> outcome lst = Inl e
             \<and> passed_all as (news @ [lst])))
       \<and> (\<forall>pre h post. before = pre @ h # post
            \<and> (\<forall>c \<in> set conditions. returns_true beh c as)
            \<and> (\<forall>c \<in> set pre. returns beh c as) \<and> raises beh h as e \<longrightarrow>
          (\<exists>st' cs news lst. calls_subs beh self f as st = (Inl e, st')
             \<and> events st' = events st \<and> calls st' = calls st @ cs @ news @ [lst]
             \<and> map callee cs = conditions \<and> map callee news = pre
             \<and> callee lst = h \<and> outcome lst = Inl e
             \<and> passed_all as (cs @ news @ [lst])))
       \<and> ((\<forall>c \<in> set conditions. returns_true beh c as)
            \<and> (\<forall>c \<in> set before. returns beh c as) \<and> raises beh f as e \<longrightarrow>
          (\<exists>st' cs bs lst. calls_subs beh self f as st = (Inl e, st')
             \<and> events st' = events st \<and> calls st' = calls st @ cs @ bs @ [lst]
             \<and> map callee cs = conditions \<and> map callee bs = before
             \<and> callee lst = f \<and> outcome lst = Inl e
             \<and> passed_all as (cs @ bs @ [lst])))
       \<and> (\<forall>pre h post. after = pre @ h # post
            \<and> (\<forall>c \<in> set conditions. returns_true beh c as)
            \<and> (\<forall>c \<in> set (before @ f # pre). returns beh c as) \<and> raises beh h as e \<longrightarrow>
          (\<exists>st' cs bs b news lst. calls_subs beh self f as st = (Inl e, st')
             \<and> events st' = events st \<and> calls st' = calls st @ cs @ bs @ [b] @ news @ [lst]
             \<and> map callee cs = conditions \<and> map callee bs = before
             \<and> callee b = f \<and> returned b \<and> map callee news = pre
             \<and> callee lst = h \<and> outcome lst = Inl e
             \<and> passed_all as (cs @ bs @ [b] @ news @ [lst])))"
    (is "?P1 \<and> ?P2 \<and> ?P3 \<and> ?P4")
proof -
  have p1: ?P1
  proof (intro allI impI, elim conjE)
    fix pre h post
    assume "conditions = pre @ h # post" "\<forall>c \<in> set pre. returns_true beh c as"
      "raises beh h as e"
    with reg show "\<exists>st' news lst. calls_subs beh self f as st = (Inl e, st')
             \<and> events st' = events st \<and> calls st' = calls st @ news @ [lst]
             \<and> map callee news = pre \<and> callee lst = h \<and> outcome lst = Inl e
             \<and> passed_all as (news @ [lst])"
      using dispatch_condition_raises [of st self before after pre h post beh as e f]
      by simp
  qed
  have p2: ?P2
  proof (intro allI impI, elim conjE)
    fix pre h post
    assume "before = pre @ h # post" "\<forall>c \<in> set conditions. returns_true beh c as"
      "\<forall>c \<in> set pre. returns beh c as" "raises beh h as e"
    with reg show "\<exists>st' cs news lst. calls_subs beh self f as st = (Inl e, st')
             \<and> events st' = events st \<and> calls st' = calls st @ cs @ news @ [lst]
             \<and> map callee cs = conditions \<and> map callee news = pre
             \<and> callee lst = h \<and> outcome lst = Inl e
             \<and> passed_all as (cs @ news @ [lst])"
      using dispatch_before_raises [of st self pre h post after conditions beh as e f]
      by simp
  qed
  have p3: ?P3
  proof (intro impI, elim conjE)
    assume "\<forall>c \<in> set conditions. returns_true beh c as"
      "\<forall>c \<in> set before. returns beh c as" "raises beh f as e"
    with reg show "\<exists>st' cs bs lst. calls_subs beh self f as st = (Inl e, st')
             \<and> events st' = events st \<and> calls st' = calls st @ cs @ bs @ [lst]
             \<and> map callee cs = conditions \<and> map callee bs = before
             \<and> callee lst = f \<and> outcome lst = Inl e
             \<and> passed_all as (cs @ bs @ [lst])"
      by (rule dispatch_body_raises)
  qed
  have p4: ?P4
  proof (intro allI impI, elim conjE)
    fix pre h post
    assume "after = pre @ h # post" "\<forall>c \<in> set conditions. returns_true beh c as"
      "\<forall>c \<in> set (before @ f # pre). returns beh c as" "raises beh h as e"
    with reg show "\<exists>st' cs bs b news lst. calls_subs beh self f as st = (Inl e, st')
             \<and> events st' = events st \<and> calls st' = calls st @ cs @ bs @ [b] @ news @ [lst]
             \<and> map callee cs = conditions \<and> map callee bs = before
             \<and> callee b = f \<and> returned b \<and> map callee news = pre
             \<and> callee lst = h \<and> outcome lst = Inl e
             \<and> passed_all as (cs @ bs @ [b] @ news @ [lst])"
      using dispatch_after_raises [of st self before pre h post conditions beh as f e]
      by simp
  qed
  from p1 p2 p3 p4 show ?thesis
    by (intro conjI)
qed

theorem errors_propagate_witness:
  "(\<exists>st' news lst.
      calls_subs demo_beh 20 return5 demo_args
        (st_with ([increment], [increment], [always_true, boom, always_true]))
        = (Inl (Raised ''boom''), st')
      \<and> calls st' = calls (st_with ([increment], [increment], [always_true, boom, always_true]))
                       @ news @ [lst]
      \<and> map callee news = [always_true] \<and> callee lst = boom)
   \<and> (\<exists>st' cs news lst.
      calls_subs demo_beh 20 return5 demo_args
        (st_with ([increment, boom, increment], [increment], [always_true]))
        = (Inl (Raised ''boom''), st')
      \<and> calls st' = calls (st_with ([increment, boom, increment], [increment], [always_true]))
                       @ cs @ news @ [lst]
      \<and> map callee cs = [always_true] \<and> map callee news = [increment] \<and> callee lst = boom)
   \<and> (\<exists>st' cs bs lst.
      calls_subs demo_beh 20 boom demo_args (st_with ([increment], [increment], [always_true]))
        = (Inl (Raised ''boom''), st')
      \<and> calls st' = calls (st_with ([increment], [increment], [always_true])) @ cs @ bs @ [lst]
      \<and> map callee cs = [always_true] \<and> map callee bs = [increment] \<and> callee lst = boom)
   \<and> (\<exists>st' cs bs b news lst.
      calls_subs demo_beh 20 return5 demo_args
        (st_with ([increment], [increment, boom, increment], [always_true]))
        = (Inl (Raised ''boom''), st')
      \<and> calls st' = calls (st_with ([increment], [increment, boom, increment], [always_true]))
                       @ cs @ bs @ [b] @ news @ [lst]
      \<and> map callee cs = [always_true] \<and> map callee bs = [increment]
      \<and> callee b = return5 \<and> returned b \<and> map callee news = [increment] \<and> callee lst = boom)
   \<and> calls_subs demo_beh 20 return5 demo_args
        (st_with ([increment], [increment, boom, increment], [always_true]))
      = (Inl (Raised ''boom''),
         \<lparr>events = [20 \<mapsto> ([increment], [increment, boom, increment], [always_true])],
          host = 2,
          calls = [\<lparr>callee = always_true, passed = demo_args, outcome = Inr (VBool True)\<rparr>,
                   \<lparr>callee = increment, passed = demo_args, outcome = Inr VNone\<rparr>,
                   \<lparr>callee = return5, passed = demo_args, outcome = Inr (VInt 5)\<rparr>,
                   \<lparr>callee = increment, passed = demo_args, outcome = Inr VNone\<rparr>,
                   \<lparr>callee = boom, passed = demo_args, outcome = Inl (Raised ''boom'')\<rparr>]\<rparr>)"
proof -
  have yes: "\<forall>c \<in> set [always_true]. returns_true demo_beh c demo_args"
    by simp
  have inc: "\<forall>c \<in> set [increment]. returns demo_beh c demo_args"
    by simp
  have inc3: "\<forall>c \<in> set ([increment] @ return5 # [increment]). returns demo_beh c demo_args"
    by simp
  have bang: "raises demo_beh boom demo_args (Raised ''boom'')"
    by simp
  let ?s1 = "st_with ([increment], [increment], [always_true, boom, always_true])"
  have reg1: "events ?s1 20 = Some ([increment], [increment], [always_true, boom, always_true])"
    by (simp add: st_with_def)
  have split1: "[always_true, boom, always_true] = [always_true] @ boom # [always_true]"
    by simp
  from errors_propagate [OF reg1, where beh = demo_beh and as = demo_args
      and e = "Raised ''boom''" and f = return5,
      THEN conjunct1, THEN spec, THEN spec, THEN spec, THEN mp,
      OF conjI [OF split1 conjI [OF yes bang]]]
  obtain st' news lst where
    "calls_subs demo_beh 20 return5 demo_args ?s1 = (Inl (Raised ''boom''), st')"
    "calls st' = calls ?s1 @ news @ [lst]" "map callee news = [always_true]" "callee lst = boom"
    by (elim exE conjE) (rule that)
  then have "calls_subs demo_beh 20 return5 demo_args ?s1 = (Inl (Raised ''boom''), st')
      \<and> calls st' = calls ?s1 @ news @ [lst]
      \<and> map callee news = [always_true] \<and> callee lst = boom"
    by simp
  then have c1: "\<exists>st' news lst.
      calls_subs demo_beh 20 return5 demo_args ?s1 = (Inl (Raised ''boom''), st')
      \<and> calls st' = calls ?s1 @ news @ [lst]
      \<and> map callee news = [always_true] \<and> callee lst = boom"
    by (intro exI)
  let ?s2 = "st_with ([increment, boom, increment], [increment], [always_true])"
  have reg2: "events ?s2 20 = Some ([increment, boom, increment], [increment], [always_true])"
    by (simp add: st_with_def)
  have split2: "[increment, boom, increment] = [increment] @ boom # [increment]"
    by simp
  from errors_propagate [OF reg2, where beh = demo_beh and as = demo_args
      and e = "Raised ''boom''" and f = return5,
      THEN conjunct2, THEN conjunct1, THEN spec, THEN spec, THEN spec, THEN mp,
      OF conjI [OF split2 conjI [OF yes conjI [OF inc bang]]]]
  obtain st' cs news lst where
    "calls_subs demo_beh 20 return5 demo_args ?s2 = (Inl (Raised ''boom''), st')"
    "calls st' = calls ?s2 @ cs @ news @ [lst]" "map callee cs = [always_true]"
    "map callee news = [increment]" "callee lst = boom"
    by (elim exE conjE) (rule that)
  then have "calls_subs demo_beh 20 return5 demo_args ?s2 = (Inl (Raised ''boom''), st')
      \<and> calls st' = calls ?s2 @ cs @ news @ [lst]
      \<and> map callee cs = [always_true] \<and> map callee news = [increment] \<and> callee lst = boom"
    by simp
  then have c2: "\<exists>st' cs news lst.
      calls_subs demo_beh 20 return5 demo_args ?s2 = (Inl (Raised ''boom''), st')
      \<and> calls st' = calls ?s2 @ cs @ news @ [lst]
      \<and> map callee cs = [always_true] \<and> map callee news = [increment] \<and> callee lst = boom"
    by (intro exI)
  let ?s3 = "st_with ([increment], [increment], [always_true])"
  have reg3: "events ?s3 20 = Some ([increment], [increment], [always_true])"
    by (simp add: st_with_def)
  from errors_propagate [OF reg3, where beh = demo_beh and as = demo_args
      and e = "Raised ''boom''" and f = boom,
      THEN conjunct2, THEN conjunct2, THEN conjunct1, THEN mp,
      OF conjI [OF yes conjI [OF inc bang]]]
  obtain st' cs bs lst where
    "calls_subs demo_beh 20 boom demo_args ?s3 = (Inl (Raised ''boom''), st')"
    "calls st' = calls ?s3 @ cs @ bs @ [lst]" "map callee cs = [always_true]"
    "map callee bs = [increment]" "callee lst = boom"
    by (elim exE conjE) (rule that)
  then have "calls_subs demo_beh 20 boom demo_args ?s3 = (Inl (Raised ''boom''), st')
      \<and> calls st' = calls ?s3 @ cs @ bs @ [lst]
      \<and> map callee cs = [always_true] \<and> map callee bs = [increment] \<and> callee lst = boom"
    by simp
  then have c3: "\<exists>st' cs bs lst.
      calls_subs demo_beh 20 boom demo_args ?s3 = (Inl (Raised ''boom''), st')
      \<and> calls st' = calls ?s3 @ cs @ bs @ [lst]
      \<and> map callee cs = [always_true] \<and> map callee bs = [increment] \<and> callee lst = boom"
    by (intro exI)
  let ?s4 = "st_with ([increment], [increment, boom, increment], [always_true])"
  have reg4: "events ?s4 20 = Some ([increment], [increment, boom, increment], [always_true])"
    by (simp add: st_with_def)
  from errors_propagate [OF reg4, where beh = demo_beh and as = demo_args
      and e = "Raised ''boom''" and f = return5,
      THEN conjunct2, THEN conjunct2, THEN conjunct2, THEN spec, THEN spec, THEN spec, THEN mp,
      OF conjI [OF split2 conjI [OF yes conjI [OF inc3 bang]]]]
  obtain st' cs bs b news lst v where
    "calls_subs demo_beh 20 return5 demo_args ?s4 = (Inl (Raised ''boom''), st')"
    "calls st' = calls ?s4 @ cs @ bs @ [b] @ news @ [lst]" "map callee cs = [always_true]"
    "map callee bs = [increment]" "callee b = return5" "outcome b = Inr v"
    "map callee news = [increment]" "callee lst = boom"
    by (elim exE conjE) (rule that)
  then have "calls_subs demo_beh 20 return5 demo_args ?s4 = (Inl (Raised ''boom''), st')
      \<and> calls st' = calls ?s4 @ cs @ bs @ [b] @ news @ [lst]
      \<and> map callee cs = [always_true] \<and> map callee bs = [increment]
      \<and> callee b = return5 \<and> returned b \<and> map callee news = [increment] \<and> callee lst = boom"
    by simp
  then have c4: "\<exists>st' cs bs b news lst.
      calls_subs demo_beh 20 return5 demo_args ?s4 = (Inl (Raised ''boom''), st')
      \<and> calls st' = calls ?s4 @ cs @ bs @ [b] @ news @ [lst]
      \<and> map callee cs = [always_true] \<and> map callee bs = [increment]
      \<and> callee b = return5 \<and> returned b \<and> map callee news = [increment] \<and> callee lst = boom"
    by (intro exI)
  have run: "calls_subs demo_beh 20 return5 demo_args ?s4
      = (Inl (Raised ''boom''),
         \<lparr>events = [20 \<mapsto> ([increment], [increment, boom, increment], [always_true])],
          host = 2,
          calls = [\<lparr>callee = always_true, passed = demo_args, outcome = Inr (VBool True)\<rparr>,
                   \<lparr>callee = increment, passed = demo_args, outcome = Inr VNone\<rparr>,
                   \<lparr>callee = return5, passed = demo_args, outcome = Inr (VInt 5)\<rparr>,
                   \<lparr>callee = increment, passed = demo_args, outcome = Inr VNone\<rparr>,
                   \<lparr>callee = boom, passed = demo_args, outcome = Inl (Raised ''boom'')\<rparr>]\<rparr>)"
    by (simp add: calls_subs_def st_with_def invoke_def)
  from c1 c2 c3 c4 run show ?thesis
    by (intro conjI)
qed



section \<open>The adapter\<close>

text \<open>
  C9. \<open>fn\<close> returns when called with no argument. Then the closure of \<open>voidargs\<close>, called
  with any argument list, makes the host state what \<open>fn ()\<close> makes it and returns
  \<^verbatim>\<open>None\<close>. An event that has this closure among its conditions, the conditions
  before it not raising, returns \<^verbatim>\<open>None\<close> from every dispatch, vetoed at the closure or
  before it, and the body does not run. Registering the closure with \<open>condition_for\<close>
  puts it among the conditions.
\<close>

theorem voidargs_discards:
  assumes fn: "returns (beh :: 'w beh) fn ([], [])"
  shows "(\<forall>as w. \<exists>r w'. call beh fn ([], []) w = (Inr r, w')
            \<and> call beh (voidargs a fn) as w = (Inr VNone, w'))
       \<and> (\<forall>as (st :: 'w state) self before after pre post f.
            events st self = Some (before, after, pre @ voidargs a fn # post)
            \<and> (\<forall>x \<in> set pre. returns beh x as) \<longrightarrow>
            (\<exists>st' pre' c' post' news lst. pre @ voidargs a fn # post = pre' @ c' # post'
               \<and> length pre' \<le> length pre
               \<and> calls_subs beh self f as st = (Inr VNone, st')
               \<and> events st' = events st \<and> calls st' = calls st @ news @ [lst]
               \<and> map callee news = pre' \<and> callee lst = c' \<and> passed_all as (news @ [lst])
               \<and> (\<forall>x \<in> set news. said_yes x) \<and> said_no lst))
       \<and> (\<forall>(st :: 'w state) ev before after conditions.
            events st (obj_id ev) = Some (before, after, conditions) \<longrightarrow>
            events (snd (condition_for_decorator ev (voidargs a fn) st)) (obj_id ev)
              = Some (before, after, conditions @ [voidargs a fn]))"
    (is "?P1 \<and> ?P2 \<and> ?P3")
proof -
  have void: "\<exists>r w'. call beh fn ([], []) w = (Inr r, w')
            \<and> call beh (voidargs a fn) as w = (Inr VNone, w')" for as w
  proof -
    from fn obtain r w' where "call beh fn ([], []) w = (Inr r, w')"
      by blast
    then have "call beh fn ([], []) w = (Inr r, w')
            \<and> call beh (voidargs a fn) as w = (Inr VNone, w')"
      by (simp add: voidargs_def)
    then show ?thesis
      by (intro exI)
  qed
  then have p1: ?P1
    by blast
  have no: "returns_false beh (voidargs a fn) as" for as
  proof
    fix w
    from void [of w as] obtain w' where "call beh (voidargs a fn) as w = (Inr VNone, w')"
      by blast
    then have "call beh (voidargs a fn) as w = (Inr VNone, w') \<and> \<not> truthy VNone"
      by simp
    then show "\<exists>v w'. call beh (voidargs a fn) as w = (Inr v, w') \<and> \<not> truthy v"
      by (intro exI)
  qed
  have p2: ?P2
  proof (intro allI impI, elim conjE)
    fix as and st :: "'w state" and self before after pre post f
    assume reg: "events st self = Some (before, after, pre @ voidargs a fn # post)"
      and ret: "\<forall>x \<in> set pre. returns beh x as"
    from reg refl ret no [of as]
    show "\<exists>st' pre' c' post' news lst. pre @ voidargs a fn # post = pre' @ c' # post'
               \<and> length pre' \<le> length pre
               \<and> calls_subs beh self f as st = (Inr VNone, st')
               \<and> events st' = events st \<and> calls st' = calls st @ news @ [lst]
               \<and> map callee news = pre' \<and> callee lst = c' \<and> passed_all as (news @ [lst])
               \<and> (\<forall>x \<in> set news. said_yes x) \<and> said_no lst"
      by (rule dispatch_vetoed)
  qed
  have p3: ?P3
    by (simp add: condition_for_decorator_def)
  from p1 p2 p3 show ?thesis
    by (intro conjI)
qed

theorem voidargs_discards_witness:
  "returns demo_beh increment ([], [])
   \<and> returns demo_beh always_true demo_args
   \<and> (\<exists>r w'. call demo_beh increment ([], []) 7 = (Inr r, w')
         \<and> call demo_beh (voidargs 30 increment) demo_args 7 = (Inr VNone, w'))
   \<and> call demo_beh (voidargs 30 increment) demo_args 7 = (Inr VNone, 8)
   \<and> (\<exists>st' pre' c' post' news lst.
         [always_true] @ voidargs 30 increment # [boom] = pre' @ c' # post'
         \<and> length pre' \<le> length [always_true]
         \<and> calls_subs demo_beh 20 return5 demo_args
              (st_with ([increment], [increment],
                        [always_true] @ voidargs 30 increment # [boom]))
            = (Inr VNone, st')
         \<and> calls st' = calls (st_with ([increment], [increment],
                                    [always_true] @ voidargs 30 increment # [boom]))
                          @ news @ [lst]
         \<and> map callee news = pre' \<and> callee lst = c' \<and> said_no lst)
   \<and> calls_subs demo_beh 20 return5 demo_args
        (st_with ([increment], [increment], [always_true, voidargs 30 increment, boom]))
      = (Inr VNone,
         \<lparr>events = [20 \<mapsto> ([increment], [increment],
                             [always_true, voidargs 30 increment, boom])],
          host = 1,
          calls = [\<lparr>callee = always_true, passed = demo_args, outcome = Inr (VBool True)\<rparr>,
                   \<lparr>callee = voidargs 30 increment, passed = demo_args,
                    outcome = Inr VNone\<rparr>]\<rparr>)"
proof -
  have fn: "returns demo_beh increment ([], [])"
    by simp
  have yes: "returns demo_beh always_true demo_args"
    by simp
  note t = voidargs_discards [OF fn, of 30]
  from t [THEN conjunct1, THEN spec [where x = demo_args], THEN spec [where x = 7]]
  have c1: "\<exists>r w'. call demo_beh increment ([], []) 7 = (Inr r, w')
         \<and> call demo_beh (voidargs 30 increment) demo_args 7 = (Inr VNone, w')" .
  have c1': "call demo_beh (voidargs 30 increment) demo_args 7 = (Inr VNone, 8)"
    by (simp add: voidargs_def)
  let ?st = "st_with ([increment], [increment], [always_true] @ voidargs 30 increment # [boom])"
  have reg: "events ?st 20
      = Some ([increment], [increment], [always_true] @ voidargs 30 increment # [boom])"
    by (simp add: st_with_def)
  have ret: "\<forall>x \<in> set [always_true]. returns demo_beh x demo_args"
    by simp
  from t [THEN conjunct2, THEN conjunct1, THEN spec, THEN spec, THEN spec, THEN spec, THEN spec,
      THEN spec, THEN spec, THEN spec, THEN mp, OF conjI [OF reg ret], of return5]
  obtain st' pre' c' post' news lst v where
    v: "[always_true] @ voidargs 30 increment # [boom] = pre' @ c' # post'"
      "length pre' \<le> length [always_true]"
      "calls_subs demo_beh 20 return5 demo_args ?st = (Inr VNone, st')"
      "calls st' = calls ?st @ news @ [lst]"
      "map callee news = pre'" "callee lst = c'" "outcome lst = Inr v" "\<not> truthy v"
    by (elim exE conjE) (rule that)
  from v(7,8) have "said_no lst"
    by blast
  with v(1-6) have "[always_true] @ voidargs 30 increment # [boom] = pre' @ c' # post'
         \<and> length pre' \<le> length [always_true]
         \<and> calls_subs demo_beh 20 return5 demo_args ?st = (Inr VNone, st')
         \<and> calls st' = calls ?st @ news @ [lst]
         \<and> map callee news = pre' \<and> callee lst = c' \<and> said_no lst"
    by (intro conjI)
  then have c2: "\<exists>st' pre' c' post' news lst.
         [always_true] @ voidargs 30 increment # [boom] = pre' @ c' # post'
         \<and> length pre' \<le> length [always_true]
         \<and> calls_subs demo_beh 20 return5 demo_args ?st = (Inr VNone, st')
         \<and> calls st' = calls ?st @ news @ [lst]
         \<and> map callee news = pre' \<and> callee lst = c' \<and> said_no lst"
    by (intro exI)
  have run: "calls_subs demo_beh 20 return5 demo_args
        (st_with ([increment], [increment], [always_true, voidargs 30 increment, boom]))
      = (Inr VNone,
         \<lparr>events = [20 \<mapsto> ([increment], [increment],
                             [always_true, voidargs 30 increment, boom])],
          host = 1,
          calls = [\<lparr>callee = always_true, passed = demo_args, outcome = Inr (VBool True)\<rparr>,
                   \<lparr>callee = voidargs 30 increment, passed = demo_args,
                    outcome = Inr VNone\<rparr>]\<rparr>)"
    by (simp add: calls_subs_def st_with_def invoke_def voidargs_def)
  from fn yes c1 c1' c2 run show ?thesis
    by (intro conjI)
qed

end
